theory Spec2Isabelle
  imports Main
begin

section \<open>Conventions of the embedding\<close>

text \<open>
  The theory embeds \<^verbatim>\<open>load_balancer_simulator.cc\<close>. Every C++ struct is a record, the
  class hierarchy under \<^verbatim>\<open>LoadBalancer\<close> is a datatype of variants, and every member
  function takes the objects it touches and returns them updated.

  An execution that the C++ standard leaves undefined (a read past the end of a vector,
  a division by zero, a call through a null \<^verbatim>\<open>unique_ptr\<close>, \<^verbatim>\<open>front()\<close> of an empty
  deque) is the value \<open>Inl\<close> of a \<open>fault\<close>; so is a loop that never exits. None of
  these is a result that the program reports: the program has no error channel at all.

  \<^verbatim>\<open>int\<close> and \<^verbatim>\<open>long long\<close> values are mathematical integers: the counters of the
  simulator move by one per event and no claim depends on their overflow. Two places
  where the width of a type decides something are written out: the index
  \<^verbatim>\<open>size() - tail\<close> of type \<^verbatim>\<open>size_t\<close> is taken modulo \<open>2 ^ 64\<close>, and the
  \<^verbatim>\<open>long long\<close> quotient that \<^verbatim>\<open>latency()\<close> returns as an \<^verbatim>\<open>int\<close> is converted
  modulo \<open>2 ^ 32\<close>. \<^verbatim>\<open>Frontend::onReceiveRequest\<close> is declared \<^verbatim>\<open>int\<close> and has no
  \<^verbatim>\<open>return\<close>; the embedding takes the effect of its body.
\<close>

datatype fault =
  DivisionByZero | SignedOverflow | IndexOutOfBounds | NullPointer | EmptyContainer | NeverReturns

text \<open>C++ \<^verbatim>\<open>/\<close> and \<^verbatim>\<open>%\<close> on integers: the quotient is truncated toward zero.\<close>

definition cpp_div :: "int \<Rightarrow> int \<Rightarrow> int" where
  "cpp_div a b = (if (a < 0) = (b < 0) then \<bar>a\<bar> div \<bar>b\<bar> else - (\<bar>a\<bar> div \<bar>b\<bar>))"

definition cpp_mod :: "int \<Rightarrow> int \<Rightarrow> int" where
  "cpp_mod a b = a - b * cpp_div a b"

text \<open>
  The conversion of a \<^verbatim>\<open>long long\<close> value to \<^verbatim>\<open>int\<close>: the value of the same residue
  modulo \<open>2 ^ 32\<close> between \<open>- 2 ^ 31\<close> and \<open>2 ^ 31 - 1\<close>.
\<close>

definition to_int :: "int \<Rightarrow> int" where
  "to_int v = (v + 2 ^ 31) mod 2 ^ 32 - 2 ^ 31"

text \<open>\<^verbatim>\<open>v[i]\<close> with an \<^verbatim>\<open>int\<close> or \<^verbatim>\<open>size_t\<close> index.\<close>

definition at_index :: "'a list \<Rightarrow> int \<Rightarrow> fault + 'a" where
  "at_index xs i =
     (if 0 \<le> i \<and> i < int (length xs) then Inr (xs ! nat i) else Inl IndexOutOfBounds)"

text \<open>
  \<^verbatim>\<open>rand()\<close>: the sequence of values that the successive calls return is a parameter of
  the model. A call reads the head of the sequence and leaves the rest.
\<close>

type_synonym rand_source = "nat \<Rightarrow> nat"

definition rand_value :: "rand_source \<Rightarrow> int" where
  "rand_value r = int (r 0)"

definition rand_rest :: "rand_source \<Rightarrow> rand_source" where
  "rand_rest r = (\<lambda>k. r (Suc k))"

section \<open>UpstreamServer\<close>

definition concurrency :: nat where
  "concurrency = 6"

record upstream_server =
  service_timers :: "int list"
  request_sources :: "int list"
  latencies :: "int list"
  server_id :: int
  service_time :: int

text \<open>The three file-level vectors that carry one tick's responses.\<close>

record completions =
  response_latency :: "int list"
  request_proxy :: "int list"
  response_server :: "int list"

definition UpstreamServer :: "int \<Rightarrow> upstream_server" where
  "UpstreamServer sid =
     \<lparr>service_timers = [], request_sources = [], latencies = [],
      server_id = sid, service_time = 100\<rparr>"

definition UpstreamServer_onReceiveRequest :: "upstream_server \<Rightarrow> int \<Rightarrow> upstream_server" where
  "UpstreamServer_onReceiveRequest s source =
     s\<lparr>service_timers := service_timers s @ [service_time s],
       request_sources := request_sources s @ [source],
       latencies := latencies s @ [0]\<rparr>"

text \<open>The \<^verbatim>\<open>for\<close> loop of \<^verbatim>\<open>processRequest\<close> over \<^verbatim>\<open>service_timers\<close>, from index \<open>i\<close>.\<close>

function serve_window :: "nat \<Rightarrow> int list \<Rightarrow> int list" where
  "serve_window i timers =
     (if i < length timers \<and> i < concurrency
      then serve_window (Suc i) (timers[i := timers ! i - 1])
      else timers)"
  by pat_completeness auto
termination
  by (relation "measure (\<lambda>(i, timers). length timers - i)") auto

declare serve_window.simps [simp del]

text \<open>The \<^verbatim>\<open>while\<close> loop of \<^verbatim>\<open>processRequest\<close>.\<close>

function drain_front ::
    "upstream_server \<Rightarrow> completions \<Rightarrow> fault + upstream_server \<times> completions" where
  "drain_front s g =
     (case service_timers s of
        [] \<Rightarrow> Inr (s, g)
      | t # ts \<Rightarrow>
          if t = 0 then
            (case latencies s of
               [] \<Rightarrow> Inl EmptyContainer
             | l # ls \<Rightarrow>
                 (case request_sources s of
                    [] \<Rightarrow> Inl EmptyContainer
                  | q # qs \<Rightarrow>
                      drain_front
                        (s\<lparr>service_timers := ts, latencies := ls, request_sources := qs\<rparr>)
                        (g\<lparr>response_latency := response_latency g @ [l],
                           request_proxy := request_proxy g @ [q],
                           response_server := response_server g @ [server_id s]\<rparr>)))
          else Inr (s, g))"
  by pat_completeness auto
termination
  by (relation "measure (\<lambda>(s, g). length (service_timers s))") auto

declare drain_front.simps [simp del]

definition UpstreamServer_processRequest ::
    "upstream_server \<Rightarrow> completions \<Rightarrow> fault + upstream_server \<times> completions" where
  "UpstreamServer_processRequest s g =
     drain_front
       (s\<lparr>latencies := map (\<lambda>latency. latency + 1) (latencies s),
          service_timers := serve_window 0 (service_timers s)\<rparr>) g"

definition UpstreamServer_activeRequests :: "upstream_server \<Rightarrow> int" where
  "UpstreamServer_activeRequests s = int (length (service_timers s))"

text \<open>
  The fields of a server are private: its states are the ones that the constructor and
  the two public operations produce.
\<close>

inductive server_state :: "upstream_server \<Rightarrow> bool" where
  constructed: "server_state (UpstreamServer sid)"
| received: "server_state s \<Longrightarrow> server_state (UpstreamServer_onReceiveRequest s source)"
| processed:
    "server_state s \<Longrightarrow> UpstreamServer_processRequest s g = Inr (s', g') \<Longrightarrow> server_state s'"

text \<open>
  One tick as the specification words it, on the three queues at once: every latency
  goes up by one; the first \<open>min(C, queueLength)\<close> timers go down by one and the others
  stay; then the entries in front whose timer is \<open>0\<close> are popped, each into one record
  of the response vectors.
\<close>

definition tick_as_specified ::
    "upstream_server \<Rightarrow> completions \<Rightarrow> upstream_server \<times> completions" where
  "tick_as_specified s g =
     (let aged = map (\<lambda>l. l + 1) (latencies s);
          window = min concurrency (length (service_timers s));
          served = map (\<lambda>t. t - 1) (take window (service_timers s)) @
                   drop window (service_timers s);
          popped = length (takeWhile (\<lambda>t. t = 0) served)
      in (s\<lparr>service_timers := drop popped served,
            latencies := drop popped aged,
            request_sources := drop popped (request_sources s)\<rparr>,
          g\<lparr>response_latency := response_latency g @ take popped aged,
            request_proxy := request_proxy g @ take popped (request_sources s),
            response_server := response_server g @ replicate popped (server_id s)\<rparr>))"

text \<open>What every state of a server satisfies.\<close>

definition server_ok :: "upstream_server \<Rightarrow> bool" where
  "server_ok s \<longleftrightarrow>
     length (latencies s) = length (service_timers s) \<and>
     length (request_sources s) = length (service_timers s) \<and>
     sorted (service_timers s) \<and>
     (\<forall>t \<in> set (service_timers s). 1 \<le> t \<and> t \<le> service_time s) \<and>
     service_time s = 100"

subsection \<open>A server's history, with the time each request waits\<close>

text \<open>
  To speak about the ticks a request spends behind the window, a run of one server
  carries, beside the program's state, a counter per queued request that no program
  variable holds: it goes up by one in every tick in which the request sits at a position
  that the \<^verbatim>\<open>for\<close> loop does not reach. The counters of the requests that a tick pops
  are moved to a list that runs parallel to \<^verbatim>\<open>response_latency\<close>.
\<close>

datatype server_event = Receive int | Process

record server_run =
  server :: upstream_server
  emitted :: completions
  waiting :: "nat list"
  waited :: "nat list"

definition behind_window :: "nat list \<Rightarrow> nat list" where
  "behind_window ws = take concurrency ws @ map Suc (drop concurrency ws)"

definition run_event :: "server_run \<Rightarrow> server_event \<Rightarrow> fault + server_run" where
  "run_event h e =
     (case e of
        Receive source \<Rightarrow>
          Inr (h\<lparr>server := UpstreamServer_onReceiveRequest (server h) source,
                 waiting := waiting h @ [0]\<rparr>)
      | Process \<Rightarrow>
          (case UpstreamServer_processRequest (server h) (emitted h) of
             Inl f \<Rightarrow> Inl f
           | Inr (s', g') \<Rightarrow>
               let popped = length (service_timers (server h)) - length (service_timers s')
               in Inr \<lparr>server = s', emitted = g',
                       waiting = drop popped (behind_window (waiting h)),
                       waited = waited h @ take popped (behind_window (waiting h))\<rparr>))"

fun run_events :: "server_run \<Rightarrow> server_event list \<Rightarrow> fault + server_run" where
  "run_events h [] = Inr h"
| "run_events h (e # es) =
     (case run_event h e of Inl f \<Rightarrow> Inl f | Inr h' \<Rightarrow> run_events h' es)"

definition new_run :: "int \<Rightarrow> server_run" where
  "new_run sid =
     \<lparr>server = UpstreamServer sid,
      emitted = \<lparr>response_latency = [], request_proxy = [], response_server = []\<rparr>,
      waiting = [], waited = []\<rparr>"

section \<open>Backend\<close>

record backend =
  upstream_servers :: "upstream_server list"

definition Backend :: "int \<Rightarrow> backend" where
  "Backend backend_servers =
     \<lparr>upstream_servers = map (\<lambda>i. UpstreamServer (int i)) [0..<nat backend_servers]\<rparr>"

definition num_servers :: "backend \<Rightarrow> int" where
  "num_servers b = int (length (upstream_servers b))"

definition Backend_onReceiveRequest :: "backend \<Rightarrow> int \<Rightarrow> int \<Rightarrow> fault + backend" where
  "Backend_onReceiveRequest b upstream_server proxy =
     (case at_index (upstream_servers b) upstream_server of
        Inl f \<Rightarrow> Inl f
      | Inr s \<Rightarrow>
          Inr (b\<lparr>upstream_servers :=
                    (upstream_servers b)
                      [nat upstream_server := UpstreamServer_onReceiveRequest s proxy]\<rparr>))"

fun process_each ::
    "upstream_server list \<Rightarrow> completions \<Rightarrow> fault + upstream_server list \<times> completions" where
  "process_each [] g = Inr ([], g)"
| "process_each (s # ss) g =
     (case UpstreamServer_processRequest s g of
        Inl f \<Rightarrow> Inl f
      | Inr (s', g') \<Rightarrow>
          (case process_each ss g' of
             Inl f \<Rightarrow> Inl f
           | Inr (ss', g'') \<Rightarrow> Inr (s' # ss', g'')))"

definition Backend_processRequest :: "backend \<Rightarrow> completions \<Rightarrow> fault + backend \<times> completions" where
  "Backend_processRequest b g =
     (case process_each (upstream_servers b) g of
        Inl f \<Rightarrow> Inl f
      | Inr (ss, g') \<Rightarrow> Inr (b\<lparr>upstream_servers := ss\<rparr>, g'))"

definition Backend_activeRequests :: "backend \<Rightarrow> int list" where
  "Backend_activeRequests b = map UpstreamServer_activeRequests (upstream_servers b)"

section \<open>LoadBalancer and its three variants\<close>

datatype variant = RoundRobin (cur_idx: int) | RandomSelect | LeastRequests

record load_balancer =
  active_requests :: "int list"
  variant :: variant

definition LoadBalancer :: "backend \<Rightarrow> variant \<Rightarrow> load_balancer" where
  "LoadBalancer b v = \<lparr>active_requests = replicate (nat (num_servers b)) 0, variant = v\<rparr>"

definition LoadBalancer_onSendRequest :: "load_balancer \<Rightarrow> int \<Rightarrow> fault + load_balancer" where
  "LoadBalancer_onSendRequest lb upstream_server =
     (case at_index (active_requests lb) upstream_server of
        Inl f \<Rightarrow> Inl f
      | Inr n \<Rightarrow>
          Inr (lb\<lparr>active_requests := (active_requests lb)[nat upstream_server := n + 1]\<rparr>))"

definition LoadBalancer_onReceiveResponse :: "load_balancer \<Rightarrow> int \<Rightarrow> fault + load_balancer" where
  "LoadBalancer_onReceiveResponse lb upstream_server =
     (case at_index (active_requests lb) upstream_server of
        Inl f \<Rightarrow> Inl f
      | Inr n \<Rightarrow>
          Inr (lb\<lparr>active_requests := (active_requests lb)[nat upstream_server := n - 1]\<rparr>))"

text \<open>
  The loop \<^verbatim>\<open>while (server2 == server1) server2 = rand() % num_servers;\<close>. It may run
  for ever: \<open>None\<close> is the run that never leaves it.
\<close>

partial_function (option) second_choice ::
    "int \<Rightarrow> int \<Rightarrow> int \<Rightarrow> rand_source \<Rightarrow> (int \<times> rand_source) option" where
  "second_choice server1 server2 n r =
     (if server2 = server1
      then second_choice server1 (cpp_mod (rand_value r) n) n (rand_rest r)
      else Some (server2, r))"

declare second_choice.simps [code]

definition selectUpstreamServer ::
    "load_balancer \<Rightarrow> int \<Rightarrow> rand_source \<Rightarrow> fault + int \<times> load_balancer \<times> rand_source" where
  "selectUpstreamServer lb n r =
     (case variant lb of
        RoundRobin cur \<Rightarrow>
          if n = 0 then Inl DivisionByZero
          else let cur' = cpp_mod (cur + 1) n
               in Inr (cur', lb\<lparr>variant := RoundRobin cur'\<rparr>, r)
      | RandomSelect \<Rightarrow>
          if n = 0 then Inl DivisionByZero
          else Inr (cpp_mod (rand_value r) n, lb, rand_rest r)
      | LeastRequests \<Rightarrow>
          if n = 0 then Inl DivisionByZero
          else let server1 = cpp_mod (rand_value r) n
               in (case second_choice server1 server1 n (rand_rest r) of
                     None \<Rightarrow> Inl NeverReturns
                   | Some (server2, r') \<Rightarrow>
                       (case at_index (active_requests lb) server1 of
                          Inl f \<Rightarrow> Inl f
                        | Inr a1 \<Rightarrow>
                            (case at_index (active_requests lb) server2 of
                               Inl f \<Rightarrow> Inl f
                             | Inr a2 \<Rightarrow>
                                 Inr (if a1 < a2 then server1 else server2, lb, r')))))"

text \<open>Repeated selection with the same number of servers: the indices returned, in order.\<close>

fun select_many ::
    "nat \<Rightarrow> load_balancer \<Rightarrow> int \<Rightarrow> rand_source \<Rightarrow> fault + int list \<times> load_balancer \<times> rand_source" where
  "select_many 0 lb n r = Inr ([], lb, r)"
| "select_many (Suc k) lb n r =
     (case selectUpstreamServer lb n r of
        Inl f \<Rightarrow> Inl f
      | Inr (i, lb', r') \<Rightarrow>
          (case select_many k lb' n r' of
             Inl f \<Rightarrow> Inl f
           | Inr (is, lb'', r'') \<Rightarrow> Inr (i # is, lb'', r'')))"

section \<open>ProxyServer\<close>

text \<open>
  \<^verbatim>\<open>load_balancer\<close> is a \<^verbatim>\<open>unique_ptr\<close>: \<open>None\<close> is the null pointer. The pointer
  \<^verbatim>\<open>backend\<close> of every proxy is the address of the simulator's one backend, which the
  operations receive and return.
\<close>

record proxy_server =
  load_balancer :: "load_balancer option"
  proxy_id :: int

definition ProxyServer :: "backend \<Rightarrow> string \<Rightarrow> int \<Rightarrow> proxy_server" where
  "ProxyServer b lb_policy pid =
     \<lparr>load_balancer =
        (if lb_policy = ''Round Robin'' then Some (LoadBalancer b (RoundRobin 0))
         else if lb_policy = ''Random Select'' then Some (LoadBalancer b RandomSelect)
         else if lb_policy = ''Least Request'' then Some (LoadBalancer b LeastRequests)
         else None),
      proxy_id = pid\<rparr>"

definition ProxyServer_onSendRequest ::
    "proxy_server \<Rightarrow> backend \<Rightarrow> rand_source \<Rightarrow> fault + proxy_server \<times> backend \<times> rand_source" where
  "ProxyServer_onSendRequest p b r =
     (case load_balancer p of
        None \<Rightarrow> Inl NullPointer
      | Some lb \<Rightarrow>
          (case selectUpstreamServer lb (num_servers b) r of
             Inl f \<Rightarrow> Inl f
           | Inr (selected_upstream, lb', r') \<Rightarrow>
               (case LoadBalancer_onSendRequest lb' selected_upstream of
                  Inl f \<Rightarrow> Inl f
                | Inr lb'' \<Rightarrow>
                    (case Backend_onReceiveRequest b selected_upstream (proxy_id p) of
                       Inl f \<Rightarrow> Inl f
                     | Inr b' \<Rightarrow> Inr (p\<lparr>load_balancer := Some lb''\<rparr>, b', r')))))"

definition ProxyServer_onReceiveResponse :: "proxy_server \<Rightarrow> int \<Rightarrow> fault + proxy_server" where
  "ProxyServer_onReceiveResponse p upstream_server =
     (case load_balancer p of
        None \<Rightarrow> Inl NullPointer
      | Some lb \<Rightarrow>
          (case LoadBalancer_onReceiveResponse lb upstream_server of
             Inl f \<Rightarrow> Inl f
           | Inr lb' \<Rightarrow> Inr (p\<lparr>load_balancer := Some lb'\<rparr>)))"

section \<open>Frontend\<close>

record frontend =
  proxies :: "proxy_server list"

definition Frontend :: "int \<Rightarrow> backend \<Rightarrow> string \<Rightarrow> frontend" where
  "Frontend proxy_servers b lb_policy =
     \<lparr>proxies = map (\<lambda>i. ProxyServer b lb_policy (int i)) [0..<nat proxy_servers]\<rparr>"

text \<open>
  One iteration of the loop of \<^verbatim>\<open>Frontend::onReceiveRequest\<close>, for the proxy \<open>p\<close>;
  \<open>n\<close> is \<^verbatim>\<open>proxies.size()\<close>.
\<close>

definition arrival :: "nat \<Rightarrow> proxy_server \<Rightarrow> backend \<Rightarrow> rand_source \<Rightarrow>
    fault + proxy_server \<times> backend \<times> rand_source" where
  "arrival n p b r =
     (if n = 0 then Inl DivisionByZero
      else if r 0 mod n = 0 then ProxyServer_onSendRequest p b (rand_rest r)
      else Inr (p, b, rand_rest r))"

fun arrivals :: "nat \<Rightarrow> proxy_server list \<Rightarrow> backend \<Rightarrow> rand_source \<Rightarrow>
    fault + proxy_server list \<times> backend \<times> rand_source" where
  "arrivals n [] b r = Inr ([], b, r)"
| "arrivals n (p # ps) b r =
     (case arrival n p b r of
        Inl f \<Rightarrow> Inl f
      | Inr (p', b', r') \<Rightarrow>
          (case arrivals n ps b' r' of
             Inl f \<Rightarrow> Inl f
           | Inr (ps', b'', r'') \<Rightarrow> Inr (p' # ps', b'', r'')))"

definition Frontend_onReceiveRequest ::
    "frontend \<Rightarrow> backend \<Rightarrow> rand_source \<Rightarrow> fault + frontend \<times> backend \<times> rand_source" where
  "Frontend_onReceiveRequest f b r =
     (case arrivals (length (proxies f)) (proxies f) b r of
        Inl e \<Rightarrow> Inl e
      | Inr (ps, b', r') \<Rightarrow> Inr (f\<lparr>proxies := ps\<rparr>, b', r'))"

section \<open>LBSimulator\<close>

record lb_simulator =
  backend :: backend
  frontend :: frontend
  backend_state :: "int list list"
  all_latency :: "int list"
  request_cnt :: int
  total_latency :: int
  timer :: int
  output_file :: "int list"

text \<open>The whole program state: the simulator, the file-level vectors and \<^verbatim>\<open>rand()\<close>.\<close>

record program =
  simulator :: lb_simulator
  responses :: completions
  random :: rand_source

definition cleanup :: "completions \<Rightarrow> completions" where
  "cleanup g = g\<lparr>request_proxy := [], response_latency := [], response_server := []\<rparr>"

definition LBSimulator :: "int \<Rightarrow> int \<Rightarrow> string \<Rightarrow> lb_simulator" where
  "LBSimulator proxy_servers backend_servers lb_policy =
     \<lparr>backend = Backend backend_servers,
      frontend = Frontend proxy_servers (Backend backend_servers) lb_policy,
      backend_state = [], all_latency = [], request_cnt = 0, total_latency = 0,
      timer = 0, output_file = []\<rparr>"

text \<open>The program after the constructor has run: the constructor calls \<^verbatim>\<open>cleanup()\<close>.\<close>

definition start :: "int \<Rightarrow> int \<Rightarrow> string \<Rightarrow> completions \<Rightarrow> rand_source \<Rightarrow> program" where
  "start proxy_servers backend_servers lb_policy g r =
     \<lparr>simulator = LBSimulator proxy_servers backend_servers lb_policy,
      responses = cleanup g, random = r\<rparr>"

text \<open>
  The first loop of \<^verbatim>\<open>collectStats\<close>: the vectors \<^verbatim>\<open>request_proxy\<close> and
  \<^verbatim>\<open>response_server\<close> are read at the same index \<open>i\<close>, from \<open>0\<close> upwards.
\<close>

fun deliver :: "int list \<Rightarrow> int list \<Rightarrow> proxy_server list \<Rightarrow> fault + proxy_server list" where
  "deliver [] servers ps = Inr ps"
| "deliver (q # qs) [] ps = Inl IndexOutOfBounds"
| "deliver (q # qs) (v # vs) ps =
     (case at_index ps q of
        Inl f \<Rightarrow> Inl f
      | Inr p \<Rightarrow>
          (case ProxyServer_onReceiveResponse p v of
             Inl f \<Rightarrow> Inl f
           | Inr p' \<Rightarrow> deliver qs vs (ps[nat q := p'])))"

definition max_element :: "int list \<Rightarrow> fault + int" where
  "max_element xs = (case xs of [] \<Rightarrow> Inl EmptyContainer | x # ys \<Rightarrow> Inr (fold max ys x))"

definition min_element :: "int list \<Rightarrow> fault + int" where
  "min_element xs = (case xs of [] \<Rightarrow> Inl EmptyContainer | x # ys \<Rightarrow> Inr (fold min ys x))"

definition collectStats :: "lb_simulator \<Rightarrow> completions \<Rightarrow> fault + lb_simulator" where
  "collectStats sim g =
     (case deliver (request_proxy g) (response_server g) (proxies (frontend sim)) of
        Inl f \<Rightarrow> Inl f
      | Inr ps \<Rightarrow>
          (case max_element (Backend_activeRequests (backend sim)) of
             Inl f \<Rightarrow> Inl f
           | Inr hi \<Rightarrow>
               (case min_element (Backend_activeRequests (backend sim)) of
                  Inl f \<Rightarrow> Inl f
                | Inr lo \<Rightarrow>
                    Inr (sim\<lparr>timer := timer sim + 1,
                             frontend := (frontend sim)\<lparr>proxies := ps\<rparr>,
                             request_cnt := request_cnt sim + int (length (response_latency g)),
                             total_latency := total_latency sim + sum_list (response_latency g),
                             all_latency := all_latency sim @ response_latency g,
                             output_file := output_file sim @ [hi - lo]\<rparr>))))"

definition run1TimeUnit :: "program \<Rightarrow> fault + program" where
  "run1TimeUnit w =
     (case Backend_processRequest (backend (simulator w)) (responses w) of
        Inl f \<Rightarrow> Inl f
      | Inr (b, g) \<Rightarrow>
          (case collectStats ((simulator w)\<lparr>backend := b\<rparr>) g of
             Inl f \<Rightarrow> Inl f
           | Inr sim \<Rightarrow>
               (case Frontend_onReceiveRequest (frontend sim) (backend sim) (random w) of
                  Inl f \<Rightarrow> Inl f
                | Inr (fr, b', r') \<Rightarrow>
                    Inr \<lparr>simulator = sim\<lparr>frontend := fr, backend := b'\<rparr>,
                         responses = cleanup g, random = r'\<rparr>)))"

fun run :: "nat \<Rightarrow> program \<Rightarrow> fault + program" where
  "run 0 w = Inr w"
| "run (Suc k) w = (case run1TimeUnit w of Inl f \<Rightarrow> Inl f | Inr w' \<Rightarrow> run k w')"

text \<open>
  \<^verbatim>\<open>latency()\<close> in two parts: the value it prints (lines 207 to 209) and the value it
  returns (line 210). The division of line 210 is one of \<^verbatim>\<open>long long\<close> values, undefined
  for the divisor \<open>0\<close> and for \<open>- 2 ^ 63\<close> divided by \<open>- 1\<close>; its quotient is converted
  to the \<^verbatim>\<open>int\<close> that the function returns.
\<close>

definition tail_latency :: "lb_simulator \<Rightarrow> fault + int \<times> lb_simulator" where
  "tail_latency sim =
     (let sorted = sort (all_latency sim);
          tail = cpp_div (request_cnt sim) 1000;
          idx = (int (length sorted) - tail) mod 2 ^ 64
      in case at_index sorted idx of
           Inl f \<Rightarrow> Inl f
         | Inr printed \<Rightarrow> Inr (printed, sim\<lparr>all_latency := sorted\<rparr>))"

definition mean_latency :: "lb_simulator \<Rightarrow> fault + int" where
  "mean_latency sim =
     (if request_cnt sim = 0 then Inl DivisionByZero
      else if total_latency sim = - (2 ^ 63) \<and> request_cnt sim = - 1 then Inl SignedOverflow
      else Inr (to_int (cpp_div (total_latency sim) (request_cnt sim))))"

definition latency :: "lb_simulator \<Rightarrow> fault + int \<times> int \<times> lb_simulator" where
  "latency sim =
     (case tail_latency sim of
        Inl f \<Rightarrow> Inl f
      | Inr (printed, sim') \<Rightarrow>
          (case mean_latency sim' of
             Inl f \<Rightarrow> Inl f
           | Inr mean \<Rightarrow> Inr (printed, mean, sim')))"

text \<open>The two sums that the simulation keeps equal.\<close>

definition queued :: "backend \<Rightarrow> int" where
  "queued b = sum_list (Backend_activeRequests b)"

definition outstanding :: "proxy_server \<Rightarrow> int" where
  "outstanding p = (case load_balancer p of None \<Rightarrow> 0 | Some lb \<Rightarrow> sum_list (active_requests lb))"

definition outstanding_all :: "frontend \<Rightarrow> int" where
  "outstanding_all f = sum_list (map outstanding (proxies f))"

section \<open>Sources of random values used in examples\<close>

definition steady :: "nat \<Rightarrow> rand_source" where
  "steady v = (\<lambda>k. v)"

definition counting :: rand_source where
  "counting = (\<lambda>k. k)"

text \<open>
  What the loop of the Least Request policy returns, in terms of the values drawn: when
  it is entered with \<open>server2 = server1\<close>, the residue of the first draw that differs
  from \<open>server1\<close>, and the draws after that one.
\<close>

definition redraw_outcome ::
    "int \<Rightarrow> int \<Rightarrow> int \<Rightarrow> rand_source \<Rightarrow> int \<times> rand_source \<Rightarrow> bool" where
  "redraw_outcome a s n r y \<longleftrightarrow>
     (if s = a
      then \<exists>k. (\<forall>j < k. int (r j) mod n = a) \<and> int (r k) mod n \<noteq> a \<and>
               y = (int (r k) mod n, \<lambda>i. r (i + Suc k))
      else y = (s, r))"

text \<open>What a run of one server keeps true.\<close>

definition run_ok :: "server_run \<Rightarrow> bool" where
  "run_ok h \<longleftrightarrow>
     server_ok (server h) \<and>
     length (waiting h) = length (service_timers (server h)) \<and>
     (\<forall>i < length (waiting h).
        latencies (server h) ! i =
          service_time (server h) - service_timers (server h) ! i + int (waiting h ! i)) \<and>
     response_latency (emitted h) = map (\<lambda>w. service_time (server h) + int w) (waited h)"



text \<open>
  A frontend and a backend as the constructors and the ticks leave them: there is a
  server, every proxy has a load balancer with one counter per server, and a Round Robin
  cursor is not negative.
\<close>

definition policy_ok :: "nat \<Rightarrow> load_balancer \<Rightarrow> bool" where
  "policy_ok n lb \<longleftrightarrow>
     length (active_requests lb) = n \<and>
     (case variant lb of RoundRobin cur \<Rightarrow> 0 \<le> cur | _ \<Rightarrow> True)"

definition proxy_ok :: "nat \<Rightarrow> proxy_server \<Rightarrow> bool" where
  "proxy_ok n p \<longleftrightarrow> (case load_balancer p of None \<Rightarrow> False | Some lb \<Rightarrow> policy_ok n lb)"

definition connected :: "frontend \<Rightarrow> backend \<Rightarrow> bool" where
  "connected f b \<longleftrightarrow>
     0 < length (upstream_servers b) \<and>
     list_all (proxy_ok (length (upstream_servers b))) (proxies f)"

definition least_requests_proxy :: "proxy_server \<Rightarrow> bool" where
  "least_requests_proxy p \<longleftrightarrow>
     (case load_balancer p of None \<Rightarrow> False | Some lb \<Rightarrow> variant lb = LeastRequests)"

text \<open>The state between two ticks: the response vectors are empty and the sums agree.\<close>

definition no_responses :: completions where
  "no_responses = \<lparr>response_latency = [], request_proxy = [], response_server = []\<rparr>"

definition balanced :: "program \<Rightarrow> bool" where
  "balanced w \<longleftrightarrow>
     queued (backend (simulator w)) = outstanding_all (frontend (simulator w)) \<and>
     responses w = no_responses"

section \<open>One tick of an upstream server\<close>

lemma serve_window_length: "length (serve_window i ts) = length ts"
proof (induction i ts rule: serve_window.induct)
  case (1 i timers)
  then show ?case
    by (subst serve_window.simps) simp
qed

lemma serve_window_nth:
  "j < length ts \<Longrightarrow>
   serve_window i ts ! j = (if i \<le> j \<and> j < concurrency then ts ! j - 1 else ts ! j)"
proof (induction i ts rule: serve_window.induct)
  case (1 i timers)
  show ?case
  proof (cases "i < length timers \<and> i < concurrency")
    case True
    then have "serve_window i timers = serve_window (Suc i) (timers[i := timers ! i - 1])"
      by (subst serve_window.simps) simp
    with True "1.IH" "1.prems" show ?thesis
      by (auto simp: nth_list_update)
  next
    case False
    then have "serve_window i timers = timers"
      by (subst serve_window.simps) auto
    with False "1.prems" show ?thesis by auto
  qed
qed

lemma serve_window_eq:
  "serve_window 0 ts =
     map (\<lambda>t. t - 1) (take (min concurrency (length ts)) ts) @ drop (min concurrency (length ts)) ts"
  by (rule nth_equalityI) (auto simp: serve_window_length serve_window_nth nth_append min_def)

lemma drain_front_eq:
  "length (latencies s) = length (service_timers s) \<Longrightarrow>
   length (request_sources s) = length (service_timers s) \<Longrightarrow>
   drain_front s g =
     Inr (s\<lparr>service_timers := drop (length (takeWhile (\<lambda>t. t = 0) (service_timers s))) (service_timers s),
            latencies := drop (length (takeWhile (\<lambda>t. t = 0) (service_timers s))) (latencies s),
            request_sources := drop (length (takeWhile (\<lambda>t. t = 0) (service_timers s))) (request_sources s)\<rparr>,
          g\<lparr>response_latency := response_latency g @ take (length (takeWhile (\<lambda>t. t = 0) (service_timers s))) (latencies s),
            request_proxy := request_proxy g @ take (length (takeWhile (\<lambda>t. t = 0) (service_timers s))) (request_sources s),
            response_server := response_server g @ replicate (length (takeWhile (\<lambda>t. t = 0) (service_timers s))) (server_id s)\<rparr>)"
proof (induction s g rule: drain_front.induct)
  case (1 s g)
  show ?case
  proof (cases "service_timers s")
    case Nil
    then show ?thesis by (subst drain_front.simps) simp
  next
    case (Cons t ts)
    note ts = Cons
    show ?thesis
    proof (cases "t = 0")
      case False
      with ts show ?thesis by (subst drain_front.simps) simp
    next
      case True
      from ts "1.prems" obtain l ls where ls: "latencies s = l # ls"
        by (cases "latencies s") auto
      from ts "1.prems" obtain q qs where qs: "request_sources s = q # qs"
        by (cases "request_sources s") auto
      let ?s = "s\<lparr>service_timers := ts, latencies := ls, request_sources := qs\<rparr>"
      let ?g = "g\<lparr>response_latency := response_latency g @ [l],
               request_proxy := request_proxy g @ [q],
               response_server := response_server g @ [server_id s]\<rparr>"
      have step: "drain_front s g = drain_front ?s ?g"
        using ts True ls qs by (subst drain_front.simps) simp
      have "length (latencies ?s) = length (service_timers ?s)"
        and "length (request_sources ?s) = length (service_timers ?s)"
        using "1.prems" ts ls qs by simp_all
      from "1.IH" [OF ts True ls qs this]
      show ?thesis
        unfolding step using ts True ls qs by (simp add: replicate_append_same)
    qed
  qed
qed


lemma processRequest_eq:
  assumes "length (latencies s) = length (service_timers s)"
    and "length (request_sources s) = length (service_timers s)"
  shows "UpstreamServer_processRequest s g = Inr (tick_as_specified s g)"
proof -
  let ?s = "s\<lparr>latencies := map (\<lambda>latency. latency + 1) (latencies s),
               service_timers := serve_window 0 (service_timers s)\<rparr>"
  have "length (latencies ?s) = length (service_timers ?s)"
    and "length (request_sources ?s) = length (service_timers ?s)"
    using assms by (simp_all add: serve_window_length)
  from drain_front_eq [OF this, of g] show ?thesis
    by (simp add: UpstreamServer_processRequest_def tick_as_specified_def Let_def
        serve_window_eq)
qed

lemma sorted_served:
  assumes "sorted (ts :: int list)"
  shows "sorted (map (\<lambda>t. t - 1) (take w ts) @ drop w ts)"
proof -
  have "sorted (take w ts @ drop w ts)" using assms by simp
  then have a: "sorted (take w ts)" and b: "sorted (drop w ts)"
    and c: "\<forall>x \<in> set (take w ts). \<forall>y \<in> set (drop w ts). x \<le> y"
    unfolding sorted_append by blast+
  from a have "sorted (map (\<lambda>t. t - 1) (take w ts))"
    by (simp add: sorted_wrt_map sorted_wrt_mono_rel [of _ "(\<le>)"])
  with b c show ?thesis
    by (fastforce simp: sorted_append)
qed

lemma sorted_after_zeros:
  assumes "sorted (ts :: int list)" and "\<forall>t \<in> set ts. 0 \<le> t"
  shows "\<forall>t \<in> set (drop (length (takeWhile (\<lambda>t. t = 0) ts)) ts). 1 \<le> t"
  using assms
proof (induction ts)
  case Nil
  then show ?case by simp
next
  case (Cons a ts)
  show ?case
  proof (cases "a = 0")
    case True
    with Cons show ?thesis by simp
  next
    case False
    with Cons.prems have "1 \<le> a" by simp
    with Cons.prems False show ?thesis by fastforce
  qed
qed

lemma server_ok_constructed: "server_ok (UpstreamServer sid)"
  by (simp add: server_ok_def UpstreamServer_def)

lemma server_ok_received:
  "server_ok s \<Longrightarrow> server_ok (UpstreamServer_onReceiveRequest s source)"
  by (auto simp: server_ok_def UpstreamServer_onReceiveRequest_def sorted_append)

lemma server_ok_tick:
  assumes "server_ok s"
  shows "server_ok (fst (tick_as_specified s g))"
proof -
  define w where "w = min concurrency (length (service_timers s))"
  define served where
    "served = map (\<lambda>t. t - 1) (take w (service_timers s)) @ drop w (service_timers s)"
  define k where "k = length (takeWhile (\<lambda>t. t = 0) served)"
  have fields:
    "service_timers (fst (tick_as_specified s g)) = drop k served"
    "latencies (fst (tick_as_specified s g)) = drop k (map (\<lambda>l. l + 1) (latencies s))"
    "request_sources (fst (tick_as_specified s g)) = drop k (request_sources s)"
    "service_time (fst (tick_as_specified s g)) = service_time s"
    by (simp_all add: tick_as_specified_def Let_def served_def k_def w_def)
  have len: "length served = length (service_timers s)"
    by (simp add: served_def)
  from assms have srt: "sorted served"
    by (simp add: server_ok_def sorted_served served_def)
  have sub: "set (take w (service_timers s)) \<subseteq> set (service_timers s)"
    "set (drop w (service_timers s)) \<subseteq> set (service_timers s)"
    by (rule set_take_subset, rule set_drop_subset)
  from assms sub have bounds: "\<forall>t \<in> set served. 0 \<le> t \<and> t \<le> service_time s"
    by (fastforce simp: server_ok_def served_def)
  then have "\<forall>t \<in> set served. 0 \<le> t" by blast
  from sorted_after_zeros [OF srt this]
  have low: "\<forall>t \<in> set (drop k served). 1 \<le> t" by (simp add: k_def)
  have "set (drop k served) \<subseteq> set served" by (rule set_drop_subset)
  with bounds have high: "\<forall>t \<in> set (drop k served). t \<le> service_time s" by blast
  from srt have "sorted (drop k served)" by (rule sorted_wrt_drop)
  with low high assms len show ?thesis
    unfolding server_ok_def fields by simp
qed

lemma server_state_ok: "server_state s \<Longrightarrow> server_ok s"
proof (induction rule: server_state.induct)
  case (constructed sid)
  show ?case by (rule server_ok_constructed)
next
  case (received s source)
  then show ?case by (simp add: server_ok_received)
next
  case (processed s g s' g')
  from processed.IH have "UpstreamServer_processRequest s g = Inr (tick_as_specified s g)"
    by (simp add: processRequest_eq server_ok_def)
  with processed.hyps(2) have "s' = fst (tick_as_specified s g)" by simp
  with processed.IH show ?case by (simp add: server_ok_tick)
qed

text \<open>
  Claim C4. In every state of an upstream server, \<^verbatim>\<open>processRequest\<close> returns, and
  what it returns is the tick of the specification: all latencies incremented, then the
  timers of exactly the first \<open>min(C, queueLength)\<close> requests decremented, then the
  front popped while its timer is \<open>0\<close>, one record (origin proxy, server id, latency)
  per pop. It stops with an empty queue or with a front whose timer is positive.
\<close>

theorem processRequest_steps:
  assumes "server_state s"
  shows "UpstreamServer_processRequest s g = Inr (tick_as_specified s g) \<and>
         (service_timers (fst (tick_as_specified s g)) = [] \<or>
          0 < hd (service_timers (fst (tick_as_specified s g))))"
proof -
  from assms have ok: "server_ok s" by (rule server_state_ok)
  then have eq: "UpstreamServer_processRequest s g = Inr (tick_as_specified s g)"
    by (simp add: processRequest_eq server_ok_def)
  from server_ok_tick [OF ok, of g]
  have "\<forall>t \<in> set (service_timers (fst (tick_as_specified s g))). 1 \<le> t"
    by (simp add: server_ok_def)
  then have "service_timers (fst (tick_as_specified s g)) = [] \<or>
      0 < hd (service_timers (fst (tick_as_specified s g)))"
    by (cases "service_timers (fst (tick_as_specified s g))") auto
  with eq show ?thesis by simp
qed

lemma server_state_foldl:
  "server_state s \<Longrightarrow> server_state (foldl UpstreamServer_onReceiveRequest s sources)"
  by (induction sources arbitrary: s) (simp_all add: server_state.received)

theorem processRequest_steps_witness:
  "server_state (foldl UpstreamServer_onReceiveRequest (UpstreamServer 0) [1, 2, 3, 4, 5, 6, 7]) \<and>
   UpstreamServer_processRequest
     (foldl UpstreamServer_onReceiveRequest (UpstreamServer 0) [1, 2, 3, 4, 5, 6, 7])
     \<lparr>response_latency = [], request_proxy = [], response_server = []\<rparr> =
   Inr (\<lparr>service_timers = [99, 99, 99, 99, 99, 99, 100],
         request_sources = [1, 2, 3, 4, 5, 6, 7],
         latencies = [1, 1, 1, 1, 1, 1, 1], server_id = 0, service_time = 100\<rparr>,
        \<lparr>response_latency = [], request_proxy = [], response_server = []\<rparr>)"
proof -
  have h: "server_state
      (foldl UpstreamServer_onReceiveRequest (UpstreamServer 0) [1, 2, 3, 4, 5, 6, 7])"
    by (rule server_state_foldl) (rule server_state.constructed)
  from processRequest_steps [OF h] h show ?thesis
    by (simp add: tick_as_specified_def UpstreamServer_def UpstreamServer_onReceiveRequest_def
        concurrency_def Let_def)
qed

section \<open>The report: tail latency and mean latency\<close>

lemma cpp_div_nonneg: "0 \<le> a \<Longrightarrow> 0 < b \<Longrightarrow> cpp_div a b = a div b"
  by (simp add: cpp_div_def)

lemma cpp_mod_nonneg: "0 \<le> a \<Longrightarrow> 0 < b \<Longrightarrow> cpp_mod a b = a mod b"
  by (simp add: cpp_mod_def cpp_div_nonneg minus_mult_div_eq_mod)

lemma cpp_div_abs: "\<bar>cpp_div a b\<bar> = \<bar>a\<bar> div \<bar>b\<bar>"
proof -
  have "0 \<le> \<bar>a\<bar> div \<bar>b\<bar>"
    by (simp add: div_int_pos_iff)
  then show ?thesis
    by (simp add: cpp_div_def)
qed

text \<open>
  With fewer than a thousand counted requests the offset \<^verbatim>\<open>tail\<close> is \<open>0\<close> and the index
  is \<^verbatim>\<open>size()\<close>, one past the last element.
\<close>

lemma tail_latency_small:
  assumes "0 \<le> request_cnt sim" "request_cnt sim < 1000"
    and "int (length (all_latency sim)) < 2 ^ 64"
  shows "tail_latency sim = Inl IndexOutOfBounds"
proof -
  from assms(1,2) have "cpp_div (request_cnt sim) 1000 = 0"
    by (simp add: cpp_div_nonneg)
  with assms(3) show ?thesis
    by (simp add: tail_latency_def at_index_def Let_def)
qed

lemma tail_latency_in_range:
  assumes "1 \<le> cpp_div (request_cnt sim) 1000"
    and "cpp_div (request_cnt sim) 1000 \<le> int (length (all_latency sim))"
    and "int (length (all_latency sim)) < 2 ^ 64"
  shows "tail_latency sim =
     Inr (sort (all_latency sim) !
            (length (all_latency sim) - nat (cpp_div (request_cnt sim) 1000)),
          sim\<lparr>all_latency := sort (all_latency sim)\<rparr>)"
proof -
  let ?n = "int (length (all_latency sim))"
  let ?t = "cpp_div (request_cnt sim) 1000"
  from assms have "0 \<le> ?n - ?t" "?n - ?t < 2 ^ 64" by simp_all
  then have m: "(?n - ?t) mod 2 ^ 64 = ?n - ?t" by simp
  from assms have "nat (?n - ?t) = length (all_latency sim) - nat ?t" by linarith
  with assms m show ?thesis
    by (simp add: tail_latency_def at_index_def Let_def)
qed

text \<open>
  Claim C1, at the input the specification names: the latencies \<open>1, 2, \<dots>, 999\<close> with a
  request count of \<open>999\<close>. The claim has \<^verbatim>\<open>latency()\<close> read the maximum, \<open>999\<close>, at a
  clamped index. The code computes the index \<open>999 - 0 = 999\<close> of a vector of \<open>999\<close>
  elements and reads there: the read is out of bounds, and no value is returned.
\<close>

theorem tail_latency_999:
  "latency ((LBSimulator 1 1 ''Round Robin'')
      \<lparr>all_latency := map int [1..<1000], request_cnt := 999, total_latency := 499500\<rparr>) =
   Inl IndexOutOfBounds"
  by (simp add: latency_def tail_latency_def at_index_def cpp_div_def Let_def)

text \<open>
  Claim C3 as stated fails where no request has completed: the division of line 210 is
  carried out with the divisor \<open>0\<close>, and the call as a whole already reads
  \<^verbatim>\<open>all_latency[0]\<close> of an empty vector. Neither is a ``no data'' result.
\<close>

theorem mean_latency_zero_count:
  "mean_latency (LBSimulator 1 1 ''Round Robin'') = Inl DivisionByZero \<and>
   latency (LBSimulator 1 1 ''Round Robin'') = Inl IndexOutOfBounds"
  by (simp add: mean_latency_def latency_def tail_latency_def at_index_def cpp_div_def
      LBSimulator_def Let_def)

lemma to_int_id: "- (2 ^ 31) \<le> v \<Longrightarrow> v < 2 ^ 31 \<Longrightarrow> to_int v = v"
  by (simp add: to_int_def)

lemma to_int_range: "- (2 ^ 31) \<le> to_int v \<and> to_int v < 2 ^ 31"
proof -
  have "0 \<le> (v + 2 ^ 31) mod 2 ^ 32" "(v + 2 ^ 31) mod 2 ^ 32 < (2 ^ 32 :: int)"
    by simp_all
  then show ?thesis by (simp add: to_int_def)
qed

lemma sum_list_le_length:
  "\<forall>x \<in> set xs. x \<le> (c :: int) \<Longrightarrow> sum_list xs \<le> int (length xs) * c"
  by (induction xs) (auto simp: algebra_simps)

lemma sum_list_nonneg_int: "\<forall>x \<in> set xs. (0 :: int) \<le> x \<Longrightarrow> 0 \<le> sum_list xs"
  by (induction xs) auto

lemma mean_of_ints_fits:
  assumes "\<forall>l \<in> set ls. 0 \<le> l \<and> l < (2 ^ 31 :: int)" and "ls \<noteq> []"
  shows "to_int (cpp_div (sum_list ls) (int (length ls))) = sum_list ls div int (length ls)"
proof -
  let ?n = "int (length ls)"
  from assms(2) have n: "0 < ?n" by simp
  from assms(1) have nonneg: "0 \<le> sum_list ls" by (intro sum_list_nonneg_int) simp
  from assms(1) have "sum_list ls \<le> ?n * (2 ^ 31 - 1)"
    by (intro sum_list_le_length) auto
  then have "sum_list ls div ?n \<le> (?n * (2 ^ 31 - 1)) div ?n"
    using n by (intro zdiv_mono1) simp_all
  with n have hi: "sum_list ls div ?n < 2 ^ 31" by simp
  from nonneg n have lo: "0 \<le> sum_list ls div ?n" by (simp add: pos_imp_zdiv_nonneg_iff)
  from nonneg n have "cpp_div (sum_list ls) ?n = sum_list ls div ?n"
    by (rule cpp_div_nonneg)
  with lo hi show ?thesis by (simp add: to_int_id)
qed

text \<open>
  Claim C3, amended. When the request count is positive, the value that line 210 returns
  is the total latency divided by the request count, truncated toward zero (its magnitude
  is the floor of the quotient of the magnitudes, its sign that of the total), converted
  from \<^verbatim>\<open>long long\<close> to \<^verbatim>\<open>int\<close>; the conversion changes nothing when the quotient
  fits an \<^verbatim>\<open>int\<close>, as it does when the statistics are those of recorded latencies.
  \<^verbatim>\<open>latency()\<close> returns that value whenever the read of the tail value before it is
  in range. The code has no ``no data'' result and no test of the request count.
\<close>

theorem mean_latency_truncates:
  assumes "0 < request_cnt sim"
  shows "mean_latency sim = Inr (to_int (cpp_div (total_latency sim) (request_cnt sim))) \<and>
     (1 \<le> cpp_div (request_cnt sim) 1000 \<and>
      cpp_div (request_cnt sim) 1000 \<le> int (length (all_latency sim)) \<and>
      int (length (all_latency sim)) < 2 ^ 64 \<longrightarrow>
        latency sim =
          Inr (sort (all_latency sim) !
                 (length (all_latency sim) - nat (cpp_div (request_cnt sim) 1000)),
               to_int (cpp_div (total_latency sim) (request_cnt sim)),
               sim\<lparr>all_latency := sort (all_latency sim)\<rparr>)) \<and>
     \<bar>cpp_div (total_latency sim) (request_cnt sim)\<bar> =
       \<bar>total_latency sim\<bar> div \<bar>request_cnt sim\<bar> \<and>
     (total_latency sim < 0 \<longrightarrow> cpp_div (total_latency sim) (request_cnt sim) \<le> 0) \<and>
     (0 \<le> total_latency sim \<longrightarrow> 0 \<le> cpp_div (total_latency sim) (request_cnt sim)) \<and>
     (- (2 ^ 31) \<le> cpp_div (total_latency sim) (request_cnt sim) \<and>
      cpp_div (total_latency sim) (request_cnt sim) < 2 ^ 31 \<longrightarrow>
        to_int (cpp_div (total_latency sim) (request_cnt sim)) =
          cpp_div (total_latency sim) (request_cnt sim)) \<and>
     (total_latency sim = sum_list (all_latency sim) \<and>
      request_cnt sim = int (length (all_latency sim)) \<and>
      (\<forall>l \<in> set (all_latency sim). 0 \<le> l \<and> l < 2 ^ 31) \<longrightarrow>
        to_int (cpp_div (total_latency sim) (request_cnt sim)) =
          sum_list (all_latency sim) div int (length (all_latency sim)))"
proof (intro conjI impI)
  from assms show mean: "mean_latency sim =
      Inr (to_int (cpp_div (total_latency sim) (request_cnt sim)))"
    by (simp add: mean_latency_def)
  show "\<bar>cpp_div (total_latency sim) (request_cnt sim)\<bar> =
       \<bar>total_latency sim\<bar> div \<bar>request_cnt sim\<bar>"
    by (rule cpp_div_abs)
  have q: "0 \<le> \<bar>total_latency sim\<bar> div \<bar>request_cnt sim\<bar>"
    by (simp add: div_int_pos_iff)
  {
    assume "total_latency sim < 0"
    with assms q show "cpp_div (total_latency sim) (request_cnt sim) \<le> 0"
      by (simp add: cpp_div_def)
  }
  {
    assume "0 \<le> total_latency sim"
    with assms q show "0 \<le> cpp_div (total_latency sim) (request_cnt sim)"
      by (simp add: cpp_div_def)
  }
  {
    assume "- (2 ^ 31) \<le> cpp_div (total_latency sim) (request_cnt sim) \<and>
      cpp_div (total_latency sim) (request_cnt sim) < 2 ^ 31"
    then show "to_int (cpp_div (total_latency sim) (request_cnt sim)) =
        cpp_div (total_latency sim) (request_cnt sim)"
      by (simp add: to_int_id)
  }
  {
    assume a: "total_latency sim = sum_list (all_latency sim) \<and>
      request_cnt sim = int (length (all_latency sim)) \<and>
      (\<forall>l \<in> set (all_latency sim). 0 \<le> l \<and> l < 2 ^ 31)"
    with assms have "all_latency sim \<noteq> []" by auto
    with a mean_of_ints_fits [of "all_latency sim"]
    show "to_int (cpp_div (total_latency sim) (request_cnt sim)) =
        sum_list (all_latency sim) div int (length (all_latency sim))"
      by simp
  }
  {
    assume r: "1 \<le> cpp_div (request_cnt sim) 1000 \<and>
      cpp_div (request_cnt sim) 1000 \<le> int (length (all_latency sim)) \<and>
      int (length (all_latency sim)) < 2 ^ 64"
    then have "tail_latency sim =
       Inr (sort (all_latency sim) !
            (length (all_latency sim) - nat (cpp_div (request_cnt sim) 1000)),
          sim\<lparr>all_latency := sort (all_latency sim)\<rparr>)"
      by (intro tail_latency_in_range) simp_all
    with assms show "latency sim =
          Inr (sort (all_latency sim) !
                 (length (all_latency sim) - nat (cpp_div (request_cnt sim) 1000)),
               to_int (cpp_div (total_latency sim) (request_cnt sim)),
               sim\<lparr>all_latency := sort (all_latency sim)\<rparr>)"
      by (simp add: latency_def mean_latency_def)
  }
qed

lemma sorted_map_int_upt: "sorted (map int [m..<n])"
proof -
  have "sorted_wrt (\<lambda>x y. int x \<le> int y) [m..<n]"
    by (rule sorted_wrt_mono_rel [OF _ sorted_upt]) simp
  then show ?thesis by (simp only: sorted_map)
qed

theorem mean_latency_truncates_witness:
  "0 < request_cnt ((LBSimulator 1 1 ''Round Robin'')
      \<lparr>all_latency := map int [100..<1100], request_cnt := 1000, total_latency := 599500\<rparr>) \<and>
   latency ((LBSimulator 1 1 ''Round Robin'')
      \<lparr>all_latency := map int [100..<1100], request_cnt := 1000, total_latency := 599500\<rparr>) =
     Inr (1099, 599, (LBSimulator 1 1 ''Round Robin'')
      \<lparr>all_latency := map int [100..<1100], request_cnt := 1000, total_latency := 599500\<rparr>) \<and>
   latency ((LBSimulator 1 1 ''Round Robin'')
      \<lparr>all_latency := map int [100..<1100], request_cnt := 1000,
        total_latency := 3000000000000\<rparr>) =
     Inr (1099, - 1294967296, (LBSimulator 1 1 ''Round Robin'')
      \<lparr>all_latency := map int [100..<1100], request_cnt := 1000,
        total_latency := 3000000000000\<rparr>)"
proof -
  define xs where "xs = map int [100..<1100]"
  define s1 where "s1 = (LBSimulator 1 1 ''Round Robin'')
      \<lparr>all_latency := xs, request_cnt := 1000, total_latency := 599500\<rparr>"
  define s2 where "s2 = (LBSimulator 1 1 ''Round Robin'')
      \<lparr>all_latency := xs, request_cnt := 1000, total_latency := 3000000000000\<rparr>"
  have len: "length xs = 1000" by (simp add: xs_def)
  have srt: "sort xs = xs"
    unfolding xs_def by (rule sorted_sort_id) (rule sorted_map_int_upt)
  have last: "xs ! 999 = 1099" by (simp add: xs_def)
  have q: "cpp_div 1000 1000 = 1" "cpp_div 599500 1000 = 599"
    "cpp_div 3000000000000 1000 = 3000000000"
    by (simp_all add: cpp_div_def)
  have c: "to_int 599 = 599" "to_int 3000000000 = - 1294967296"
    by (simp_all add: to_int_def)
  have f1: "request_cnt s1 = 1000" "all_latency s1 = xs" "total_latency s1 = 599500"
    "s1\<lparr>all_latency := xs\<rparr> = s1"
    by (simp_all add: s1_def)
  have f2: "request_cnt s2 = 1000" "all_latency s2 = xs" "total_latency s2 = 3000000000000"
    "s2\<lparr>all_latency := xs\<rparr> = s2"
    by (simp_all add: s2_def)
  have p1: "0 < request_cnt s1" and p2: "0 < request_cnt s2"
    by (simp_all add: f1 f2)
  have r1: "1 \<le> cpp_div (request_cnt s1) 1000 \<and>
      cpp_div (request_cnt s1) 1000 \<le> int (length (all_latency s1)) \<and>
      int (length (all_latency s1)) < 2 ^ 64"
    by (simp add: f1 q len)
  have r2: "1 \<le> cpp_div (request_cnt s2) 1000 \<and>
      cpp_div (request_cnt s2) 1000 \<le> int (length (all_latency s2)) \<and>
      int (length (all_latency s2)) < 2 ^ 64"
    by (simp add: f2 q len)
  from mean_latency_truncates [OF p1, THEN conjunct2, THEN conjunct1, THEN mp, OF r1]
  have l1: "latency s1 = Inr (1099, 599, s1)"
    by (simp add: f1 q c len srt last)
  from mean_latency_truncates [OF p2, THEN conjunct2, THEN conjunct1, THEN mp, OF r2]
  have l2: "latency s2 = Inr (1099, - 1294967296, s2)"
    by (simp add: f2 q c len srt last)
  from p1 l1 l2 show ?thesis
    unfolding s1_def s2_def xs_def by simp
qed

section \<open>Construction with a policy name\<close>

text \<open>
  Claim C2 as stated fails for the name \<open>Weighted\<close>: the constructor returns a proxy, its
  \<^verbatim>\<open>load_balancer\<close> is null, and the first \<^verbatim>\<open>onSendRequest\<close> calls through the null
  pointer; so does the first tick of a simulator built with that name, once a proxy's
  draw is \<open>0\<close>.
\<close>

theorem unknown_policy_constructs:
  "load_balancer (ProxyServer (Backend 2) ''Weighted'' 0) = None \<and>
   ProxyServer_onSendRequest (ProxyServer (Backend 2) ''Weighted'' 0) (Backend 2) (steady 0) =
     Inl NullPointer \<and>
   run 1 (start 1 2 ''Weighted''
            \<lparr>response_latency = [], request_proxy = [], response_server = []\<rparr> (steady 0)) =
     Inl NullPointer"
  by (simp add: ProxyServer_def ProxyServer_onSendRequest_def start_def run1TimeUnit_def
      LBSimulator_def Backend_def Frontend_def Backend_processRequest_def
      UpstreamServer_processRequest_def UpstreamServer_def serve_window.simps
      drain_front.simps collectStats_def cleanup_def Backend_activeRequests_def
      UpstreamServer_activeRequests_def max_element_def min_element_def
      Frontend_onReceiveRequest_def arrival_def steady_def rand_rest_def upt_rec)

text \<open>
  Claim C2, amended. The constructor of a proxy never fails. It selects the policy by the
  name: one of the three names gives the load balancer of that name, with a counter of
  \<open>0\<close> per server; any other name gives a proxy whose \<^verbatim>\<open>load_balancer\<close> is null, and
  both operations of such a proxy call through the null pointer at their first use.
\<close>

theorem policy_by_name:
  "load_balancer (ProxyServer b lb_policy pid) =
     (if lb_policy = ''Round Robin'' then Some (LoadBalancer b (RoundRobin 0))
      else if lb_policy = ''Random Select'' then Some (LoadBalancer b RandomSelect)
      else if lb_policy = ''Least Request'' then Some (LoadBalancer b LeastRequests)
      else None) \<and>
   (lb_policy \<notin> {''Round Robin'', ''Random Select'', ''Least Request''} \<longrightarrow>
      load_balancer (ProxyServer b lb_policy pid) = None \<and>
      ProxyServer_onSendRequest (ProxyServer b lb_policy pid) b' r = Inl NullPointer \<and>
      ProxyServer_onReceiveResponse (ProxyServer b lb_policy pid) v = Inl NullPointer)"
  by (simp add: ProxyServer_def ProxyServer_onSendRequest_def ProxyServer_onReceiveResponse_def)

theorem policy_by_name_witness:
  "''Random'' \<notin> {''Round Robin'', ''Random Select'', ''Least Request''} \<and>
   load_balancer (ProxyServer (Backend 3) ''Random'' 1) = None \<and>
   ProxyServer_onSendRequest (ProxyServer (Backend 3) ''Random'' 1) (Backend 3) counting =
     Inl NullPointer \<and>
   ProxyServer_onReceiveResponse (ProxyServer (Backend 3) ''Random'' 1) 0 = Inl NullPointer \<and>
   load_balancer (ProxyServer (Backend 3) ''Random Select'' 1) =
     Some \<lparr>active_requests = [0, 0, 0], variant = RandomSelect\<rparr>"
  using policy_by_name [of "Backend 3" "''Random''" 1 "Backend 3" counting 0]
    policy_by_name [of "Backend 3" "''Random Select''" 1]
  by (simp add: LoadBalancer_def num_servers_def Backend_def eval_nat_numeral)

section \<open>The Round Robin policy\<close>

lemma select_RoundRobin:
  assumes "variant lb = RoundRobin c" "0 \<le> c" "0 < K"
  shows "selectUpstreamServer lb K r =
     Inr ((c + 1) mod K, lb\<lparr>variant := RoundRobin ((c + 1) mod K)\<rparr>, r)"
  using assms by (simp add: selectUpstreamServer_def cpp_mod_nonneg Let_def)

lemma select_many_RoundRobin:
  assumes "0 < K"
  shows "variant lb = RoundRobin c \<Longrightarrow> 0 \<le> c \<Longrightarrow> c < K \<Longrightarrow>
     select_many n lb K r =
       Inr (map (\<lambda>i. (c + 1 + int i) mod K) [0..<n],
            lb\<lparr>variant := RoundRobin ((c + int n) mod K)\<rparr>, r)"
proof (induction n arbitrary: lb c)
  case 0
  then show ?case by simp
next
  case (Suc n)
  let ?c = "(c + 1) mod K"
  let ?lb = "lb\<lparr>variant := RoundRobin ?c\<rparr>"
  from Suc.prems assms have sel: "selectUpstreamServer lb K r = Inr (?c, ?lb, r)"
    by (simp add: select_RoundRobin)
  from assms have c: "0 \<le> ?c" "?c < K" by simp_all
  have "variant ?lb = RoundRobin ?c" by simp
  from Suc.IH [OF this c]
  have rest: "select_many n ?lb K r =
      Inr (map (\<lambda>i. (?c + 1 + int i) mod K) [0..<n],
           ?lb\<lparr>variant := RoundRobin ((?c + int n) mod K)\<rparr>, r)" .
  have a: "(?c + 1 + int i) mod K = (c + 1 + int (Suc i)) mod K" for i
  proof -
    have "(?c + (1 + int i)) mod K = (c + 1 + (1 + int i)) mod K"
      by (simp only: mod_add_left_eq)
    then show ?thesis by (simp add: ac_simps)
  qed
  have b: "(?c + int n) mod K = (c + int (Suc n)) mod K"
  proof -
    have "(?c + int n) mod K = (c + 1 + int n) mod K"
      by (simp only: mod_add_left_eq)
    then show ?thesis by (simp add: ac_simps)
  qed
  have "[0..<Suc n] = 0 # map Suc [0..<n]"
    by (simp add: upt_conv_Cons map_Suc_upt del: upt_Suc)
  then have "map (\<lambda>i. (c + 1 + int i) mod K) [0..<Suc n] =
      ?c # map (\<lambda>i. (c + 1 + int (Suc i)) mod K) [0..<n]"
    by (simp add: comp_def del: upt_Suc)
  with sel rest a b show ?case
    by (simp del: upt_Suc)
qed

lemma inj_on_cycle:
  assumes "0 < (K :: int)"
  shows "inj_on (\<lambda>i. (int i + 1) mod K) {m..<m + nat K}"
proof (rule inj_onI)
  fix i j
  assume i: "i \<in> {m..<m + nat K}" and j: "j \<in> {m..<m + nat K}"
    and eq: "(int i + 1) mod K = (int j + 1) mod K"
  from eq have "K dvd (int i + 1) - (int j + 1)"
    by (simp add: mod_eq_dvd_iff)
  then have d: "K dvd int i - int j" by simp
  from i j assms have "\<bar>int i - int j\<bar> < K" by auto
  with d have "int i - int j = 0"
    using zdvd_not_zless [of "\<bar>int i - int j\<bar>" K] by fastforce
  then show "i = j" by simp
qed

lemma cycle_window:
  assumes "m + k \<le> n"
  shows "take k (drop m (map f [0..<n])) = map f [m..<m + k]"
  using assms by (simp add: take_map drop_map)

text \<open>
  Claim C7. A fresh Round Robin policy has the cursor \<open>0\<close>; each selection increments
  the cursor, reduces it modulo the number \<open>K\<close> of servers and returns it. For
  \<open>K > 0\<close> the indices returned by \<open>n\<close> successive selections are \<open>1 mod K, 2 mod K, \<dots>\<close>;
  the sequence repeats with period \<open>K\<close>, and any \<open>K\<close> consecutive values are distinct
  and are exactly the indices \<open>0, \<dots>, K - 1\<close>.
\<close>

theorem round_robin_cycle:
  assumes "0 < K"
  shows "\<exists>outs lb'.
     select_many n (LoadBalancer b (RoundRobin 0)) K r = Inr (outs, lb', r) \<and>
     length outs = n \<and>
     (\<forall>i < n. outs ! i = (int i + 1) mod K) \<and>
     (\<forall>i. i + nat K < n \<longrightarrow> outs ! (i + nat K) = outs ! i) \<and>
     (\<forall>m. m + nat K \<le> n \<longrightarrow>
        distinct (take (nat K) (drop m outs)) \<and>
        set (take (nat K) (drop m outs)) = {0..<K})"
proof -
  let ?f = "\<lambda>i. (int i + 1) mod K"
  let ?outs = "map ?f [0..<n]"
  let ?lb = "LoadBalancer b (RoundRobin 0)"
  have "variant ?lb = RoundRobin 0" by (simp add: LoadBalancer_def)
  from select_many_RoundRobin [OF assms this, of n r] assms
  have run: "select_many n ?lb K r =
      Inr (?outs, ?lb\<lparr>variant := RoundRobin (int n mod K)\<rparr>, r)"
    by (simp add: add.commute)
  have nth: "\<forall>i < n. ?outs ! i = ?f i" by simp
  have shift: "?f (i + nat K) = ?f i" for i
  proof -
    from assms have "int (i + nat K) + 1 = int i + 1 + K" by simp
    then show ?thesis by (simp only: mod_add_self2)
  qed
  have per: "\<forall>i. i + nat K < n \<longrightarrow> ?outs ! (i + nat K) = ?outs ! i"
    using shift by (simp del: of_nat_add)
  have win: "distinct (take (nat K) (drop m ?outs)) \<and>
      set (take (nat K) (drop m ?outs)) = {0..<K}" if m: "m + nat K \<le> n" for m
  proof -
    from m have w: "take (nat K) (drop m ?outs) = map ?f [m..<m + nat K]"
      by (rule cycle_window)
    have d: "distinct (map ?f [m..<m + nat K])"
      using inj_on_cycle [OF assms, of m] by (simp add: distinct_map)
    have sub: "set (map ?f [m..<m + nat K]) \<subseteq> {0..<K}"
      using assms by auto
    from d have "card (set (map ?f [m..<m + nat K])) = length (map ?f [m..<m + nat K])"
      by (rule distinct_card)
    then have "card (set (map ?f [m..<m + nat K])) = card {0..<K}"
      using assms by simp
    with sub have "set (map ?f [m..<m + nat K]) = {0..<K}"
      by (simp add: card_subset_eq)
    with d w show ?thesis by simp
  qed
  from run nth per win show ?thesis
    by (intro exI [of _ ?outs] exI [of _ "?lb\<lparr>variant := RoundRobin (int n mod K)\<rparr>"])
      simp
qed


theorem round_robin_cycle_witness:
  "select_many 7 (LoadBalancer (Backend 3) (RoundRobin 0)) 3 counting =
     Inr ([1, 2, 0, 1, 2, 0, 1], \<lparr>active_requests = [0, 0, 0], variant = RoundRobin 1\<rparr>,
          counting) \<and>
   distinct (take 3 (drop 2 [1, 2, 0, 1, 2, 0, 1 :: int])) \<and>
   set (take 3 (drop 2 [1, 2, 0, 1, 2, 0, 1 :: int])) = {0..<3}"
proof -
  have k: "(0::int) < 3" by simp
  have run: "select_many 7 (LoadBalancer (Backend 3) (RoundRobin 0)) 3 counting =
     Inr ([1, 2, 0, 1, 2, 0, 1], \<lparr>active_requests = [0, 0, 0], variant = RoundRobin 1\<rparr>,
          counting)"
    by (simp add: eval_nat_numeral selectUpstreamServer_def cpp_mod_def cpp_div_def
        LoadBalancer_def num_servers_def Backend_def Let_def)
  from round_robin_cycle [OF k, of 7 "Backend 3" counting] run
  have "distinct (take (nat 3) (drop 2 [1, 2, 0, 1, 2, 0, 1 :: int])) \<and>
      set (take (nat 3) (drop 2 [1, 2, 0, 1, 2, 0, 1 :: int])) = {0..<3}"
    by auto
  with run show ?thesis by simp
qed

section \<open>The Least Request policy\<close>

lemma draw_mod: "0 < n \<Longrightarrow> cpp_mod (rand_value r) n = int (r 0) mod n"
  by (simp add: cpp_mod_nonneg rand_value_def)

lemma second_choice_found:
  assumes "0 < n"
  shows "(\<forall>j < k. int (r j) mod n = a) \<Longrightarrow> int (r k) mod n \<noteq> a \<Longrightarrow>
     second_choice a a n r = Some (int (r k) mod n, \<lambda>i. r (i + Suc k))"
proof (induction k arbitrary: r)
  case 0
  have "second_choice a a n r = second_choice a (int (r 0) mod n) n (rand_rest r)"
    using assms by (subst second_choice.simps) (simp add: draw_mod)
  also have "\<dots> = Some (int (r 0) mod n, rand_rest r)"
    using 0 by (subst second_choice.simps) simp
  finally show ?case by (simp add: rand_rest_def)
next
  case (Suc k)
  from Suc.prems have first: "int (r 0) mod n = a" by simp
  have "second_choice a a n r = second_choice a (int (r 0) mod n) n (rand_rest r)"
    using assms by (subst second_choice.simps) (simp add: draw_mod)
  with first have step: "second_choice a a n r = second_choice a a n (rand_rest r)"
    by simp
  from Suc.prems have "\<forall>j < k. int (rand_rest r j) mod n = a"
    and "int (rand_rest r k) mod n \<noteq> a"
    by (simp_all add: rand_rest_def)
  from Suc.IH [OF this] step show ?case
    by (simp add: rand_rest_def)
qed

lemma second_choice_outcome:
  assumes "second_choice a s n r = Some y"
  shows "0 < n \<longrightarrow> redraw_outcome a s n r y"
proof (rule second_choice.raw_induct
    [where P = "\<lambda>a s n r y. 0 < n \<longrightarrow> redraw_outcome a s n r y", OF _ assms])
  fix f :: "int \<Rightarrow> int \<Rightarrow> int \<Rightarrow> rand_source \<Rightarrow> (int \<times> rand_source) option"
  fix a s n r y
  assume IH: "\<And>a s n r y. f a s n r = Some y \<Longrightarrow> 0 < n \<longrightarrow> redraw_outcome a s n r y"
    and eq: "(if s = a then f a (cpp_mod (rand_value r) n) n (rand_rest r)
              else Some (s, r)) = Some y"
  show "0 < n \<longrightarrow> redraw_outcome a s n r y"
  proof
    assume n: "0 < n"
    show "redraw_outcome a s n r y"
    proof (cases "s = a")
      case False
      with eq show ?thesis by (simp add: redraw_outcome_def)
    next
      case True
      let ?s = "int (r 0) mod n"
      from True eq n have call: "f a ?s n (rand_rest r) = Some y"
        by (simp add: draw_mod)
      from IH [OF call] n have out: "redraw_outcome a ?s n (rand_rest r) y" by simp
      show ?thesis
      proof (cases "?s = a")
        case False
        with out have "y = (?s, rand_rest r)" by (simp add: redraw_outcome_def)
        with False have "\<exists>k. (\<forall>j < k. int (r j) mod n = a) \<and> int (r k) mod n \<noteq> a \<and>
            y = (int (r k) mod n, \<lambda>i. r (i + Suc k))"
          by (intro exI [of _ "0::nat"]) (simp add: rand_rest_def)
        with True show ?thesis by (simp add: redraw_outcome_def)
      next
        case same: True
        with out obtain k where
          k: "\<forall>j < k. int (rand_rest r j) mod n = a" "int (rand_rest r k) mod n \<noteq> a"
            "y = (int (rand_rest r k) mod n, \<lambda>i. rand_rest r (i + Suc k))"
          by (auto simp: redraw_outcome_def)
        have "\<forall>j < Suc k. int (r j) mod n = a"
        proof (intro allI impI)
          fix j assume "j < Suc k"
          with k(1) same show "int (r j) mod n = a"
            by (cases j) (simp_all add: rand_rest_def)
        qed
        with k(2,3) have "\<exists>k. (\<forall>j < k. int (r j) mod n = a) \<and> int (r k) mod n \<noteq> a \<and>
            y = (int (r k) mod n, \<lambda>i. r (i + Suc k))"
          by (intro exI [of _ "Suc k"]) (simp add: rand_rest_def)
        with True show ?thesis by (simp add: redraw_outcome_def)
      qed
    qed
  qed
qed

lemma second_choice_result:
  assumes "second_choice a s n r = Some y" and "0 < n"
  shows "redraw_outcome a s n r y"
  using second_choice_outcome [OF assms(1)] assms(2) by simp

lemma second_choice_iff:
  assumes "0 < n"
  shows "second_choice a a n r = Some (b, r') \<longleftrightarrow>
     (\<exists>k. (\<forall>j < k. int (r j) mod n = a) \<and> int (r k) mod n \<noteq> a \<and>
          b = int (r k) mod n \<and> r' = (\<lambda>i. r (i + Suc k)))"
proof
  assume "second_choice a a n r = Some (b, r')"
  from second_choice_result [OF this assms] show
    "\<exists>k. (\<forall>j < k. int (r j) mod n = a) \<and> int (r k) mod n \<noteq> a \<and>
          b = int (r k) mod n \<and> r' = (\<lambda>i. r (i + Suc k))"
    by (simp add: redraw_outcome_def)
next
  assume "\<exists>k. (\<forall>j < k. int (r j) mod n = a) \<and> int (r k) mod n \<noteq> a \<and>
          b = int (r k) mod n \<and> r' = (\<lambda>i. r (i + Suc k))"
  then obtain k where "\<forall>j < k. int (r j) mod n = a" "int (r k) mod n \<noteq> a"
    "b = int (r k) mod n" "r' = (\<lambda>i. r (i + Suc k))" by blast
  with second_choice_found [OF assms, of k r a] show "second_choice a a n r = Some (b, r')"
    by simp
qed



lemma LeastRequests_select:
  assumes "variant lb = LeastRequests" "0 < n" "length (active_requests lb) = nat n"
    and "second_choice (int (r 0) mod n) (int (r 0) mod n) n (rand_rest r) = Some (b, r')"
  shows "selectUpstreamServer lb n r =
     Inr (if active_requests lb ! nat (int (r 0) mod n) < active_requests lb ! nat b
          then int (r 0) mod n else b, lb, r')"
    and "b \<noteq> int (r 0) mod n" and "0 \<le> b" and "b < n"
proof -
  let ?a = "int (r 0) mod n"
  from second_choice_result [OF assms(4) assms(2)] obtain k where
    k: "int (rand_rest r k) mod n \<noteq> ?a" "b = int (rand_rest r k) mod n"
    by (auto simp: redraw_outcome_def)
  then show "b \<noteq> ?a" by simp
  from k assms(2) show b: "0 \<le> b" "b < n" by simp_all
  from assms(2,3) have a: "at_index (active_requests lb) ?a = Inr (active_requests lb ! nat ?a)"
    by (simp add: at_index_def)
  from assms(2,3) b have "at_index (active_requests lb) b = Inr (active_requests lb ! nat b)"
    by (simp add: at_index_def)
  with a assms show "selectUpstreamServer lb n r =
     Inr (if active_requests lb ! nat ?a < active_requests lb ! nat b then ?a else b, lb, r')"
    by (simp add: selectUpstreamServer_def draw_mod Let_def)
qed




text \<open>
  Claim C6. Let \<open>a\<close> be the first index sampled and \<open>b\<close> the second, the one with
  which the redraw loop ends. Then \<open>a\<close> and \<open>b\<close> differ, and the selection returns
  \<open>a\<close> if the proxy's counter for \<open>a\<close> is strictly less than its counter for \<open>b\<close>
  and \<open>b\<close> otherwise: it never returns the index with the strictly larger counter,
  and on equal counters it returns \<open>b\<close>. The policy's state is unchanged.
\<close>

theorem least_request_choice:
  assumes "variant lb = LeastRequests" "0 < n" "length (active_requests lb) = nat n"
    and "a = int (r 0) mod n"
    and "second_choice a a n (rand_rest r) = Some (b, r')"
  shows "a \<noteq> b \<and>
     selectUpstreamServer lb n r =
       Inr (if active_requests lb ! nat a < active_requests lb ! nat b then a else b, lb, r') \<and>
     (\<exists>i. selectUpstreamServer lb n r = Inr (i, lb, r') \<and>
          (i = a \<longleftrightarrow> active_requests lb ! nat a < active_requests lb ! nat b) \<and>
          (i = b \<longleftrightarrow> \<not> active_requests lb ! nat a < active_requests lb ! nat b) \<and>
          (active_requests lb ! nat a = active_requests lb ! nat b \<longrightarrow> i = b) \<and>
          active_requests lb ! nat i \<le> active_requests lb ! nat a \<and>
          active_requests lb ! nat i \<le> active_requests lb ! nat b)"
proof -
  from assms(4,5) have loop:
    "second_choice (int (r 0) mod n) (int (r 0) mod n) n (rand_rest r) = Some (b, r')"
    by simp
  from LeastRequests_select [OF assms(1-3) loop] assms(4)
  have ne: "a \<noteq> b"
    and sel: "selectUpstreamServer lb n r =
       Inr (if active_requests lb ! nat a < active_requests lb ! nat b then a else b, lb, r')"
    by simp_all
  show ?thesis
  proof (cases "active_requests lb ! nat a < active_requests lb ! nat b")
    case True
    with ne sel show ?thesis by simp
  next
    case False
    with ne sel show ?thesis by simp
  qed
qed




theorem least_request_choice_witness:
  "second_choice 0 0 2 (rand_rest counting) = Some (1, rand_rest (rand_rest counting)) \<and>
   selectUpstreamServer \<lparr>active_requests = [3, 1], variant = LeastRequests\<rparr> 2 counting =
     Inr (1, \<lparr>active_requests = [3, 1], variant = LeastRequests\<rparr>, rand_rest (rand_rest counting)) \<and>
   selectUpstreamServer \<lparr>active_requests = [1, 3], variant = LeastRequests\<rparr> 2 counting =
     Inr (0, \<lparr>active_requests = [1, 3], variant = LeastRequests\<rparr>, rand_rest (rand_rest counting)) \<and>
   selectUpstreamServer \<lparr>active_requests = [2, 2], variant = LeastRequests\<rparr> 2 counting =
     Inr (1, \<lparr>active_requests = [2, 2], variant = LeastRequests\<rparr>, rand_rest (rand_rest counting))"
proof -
  have first: "(0::int) = int (counting 0) mod 2"
    by (simp add: counting_def)
  have loop: "second_choice 0 0 2 (rand_rest counting) =
      Some (1, rand_rest (rand_rest counting))"
    by (simp add: second_choice.simps cpp_mod_def cpp_div_def rand_value_def rand_rest_def
        counting_def)
  have n: "(0::int) < 2" by simp
  from loop
    least_request_choice
      [OF _ n _ first loop, of "\<lparr>active_requests = [3, 1], variant = LeastRequests\<rparr>"]
    least_request_choice
      [OF _ n _ first loop, of "\<lparr>active_requests = [1, 3], variant = LeastRequests\<rparr>"]
    least_request_choice
      [OF _ n _ first loop, of "\<lparr>active_requests = [2, 2], variant = LeastRequests\<rparr>"]
  show ?thesis by simp
qed


section \<open>Latency of a request and the time it waits\<close>

lemma served_nth:
  assumes "i < length ts"
  shows "(map (\<lambda>t. t - 1) (take (min c (length ts)) ts) @ drop (min c (length ts)) ts) ! i =
     (if i < c then ts ! i - 1 else (ts ! i :: int))"
  using assms by (auto simp: nth_append min_def)

lemma behind_window_nth:
  assumes "i < length ws"
  shows "behind_window ws ! i = (if i < concurrency then ws ! i else Suc (ws ! i))"
  using assms by (auto simp: behind_window_def nth_append min_def)

lemma behind_window_length: "length (behind_window ws) = length ws"
  by (simp add: behind_window_def)

lemma run_ok_new: "run_ok (new_run sid)"
  by (simp add: run_ok_def new_run_def server_ok_constructed) (simp add: UpstreamServer_def)

lemma run_ok_receive:
  assumes "run_ok h"
  shows "run_event h (Receive source) =
      Inr (h\<lparr>server := UpstreamServer_onReceiveRequest (server h) source,
             waiting := waiting h @ [0]\<rparr>)"
    and "run_ok (h\<lparr>server := UpstreamServer_onReceiveRequest (server h) source,
             waiting := waiting h @ [0]\<rparr>)"
proof -
  show "run_event h (Receive source) =
      Inr (h\<lparr>server := UpstreamServer_onReceiveRequest (server h) source,
             waiting := waiting h @ [0]\<rparr>)"
    by (simp add: run_event_def)
  from assms have ok: "server_ok (UpstreamServer_onReceiveRequest (server h) source)"
    by (simp add: run_ok_def server_ok_received)
  from assms have len: "length (waiting h) = length (service_timers (server h))"
    "length (latencies (server h)) = length (service_timers (server h))"
    by (simp_all add: run_ok_def server_ok_def)
  with assms ok show "run_ok (h\<lparr>server := UpstreamServer_onReceiveRequest (server h) source,
             waiting := waiting h @ [0]\<rparr>)"
    by (auto simp: run_ok_def UpstreamServer_onReceiveRequest_def nth_append)
qed


lemma zeros_in_front:
  assumes "j < length (takeWhile (\<lambda>t. t = 0) ts)"
  shows "ts ! j = (0 :: int)"
proof -
  from assms have "takeWhile (\<lambda>t. t = 0) ts ! j \<in> set (takeWhile (\<lambda>t. t = 0) ts)"
    by (rule nth_mem)
  then have "takeWhile (\<lambda>t. t = 0) ts ! j = 0"
    by (auto dest: set_takeWhileD)
  with assms show ?thesis by (simp add: takeWhile_nth)
qed

lemma run_ok_process:
  assumes "run_ok h"
  shows "\<exists>h'. run_event h Process = Inr h' \<and> run_ok h'"
proof -
  let ?s = "server h"
  define ts where "ts = service_timers ?s"
  define st where "st = service_time ?s"
  define aged where "aged = map (\<lambda>l. l + 1) (latencies ?s)"
  define served where
    "served = map (\<lambda>t. t - 1) (take (min concurrency (length ts)) ts) @
       drop (min concurrency (length ts)) ts"
  define k where "k = length (takeWhile (\<lambda>t. t = 0) served)"
  define w1 where "w1 = behind_window (waiting h)"
  from assms have ok: "server_ok ?s" by (simp add: run_ok_def)
  then have lens: "length (latencies ?s) = length ts" "length (request_sources ?s) = length ts"
    by (simp_all add: server_ok_def ts_def)
  from assms have lw: "length (waiting h) = length ts" by (simp add: run_ok_def ts_def)
  from assms have rel: "\<forall>i < length ts. latencies ?s ! i = st - ts ! i + int (waiting h ! i)"
    by (simp add: run_ok_def ts_def st_def)
  from ok have pos: "\<forall>i < length ts. 1 \<le> ts ! i"
    by (simp add: server_ok_def ts_def)
  from assms have out: "response_latency (emitted h) = map (\<lambda>w. st + int w) (waited h)"
    by (simp add: run_ok_def st_def)
  have ls: "length served = length ts" by (simp add: served_def)
  have la: "length aged = length ts" by (simp add: aged_def lens)
  have lw1: "length w1 = length ts" by (simp add: w1_def behind_window_length lw)
  have kn: "k \<le> length ts" unfolding k_def ls [symmetric] by (rule length_takeWhile_le)
  have rel1: "aged ! i = st - served ! i + int (w1 ! i)" if "i < length ts" for i
    using that rel lens lw
    by (simp add: aged_def served_def w1_def served_nth behind_window_nth)
  have zero: "served ! j = 0" if "j < k" for j
    using that unfolding k_def by (rule zeros_in_front)
  have tick: "tick_as_specified ?s (emitted h) =
      (?s\<lparr>service_timers := drop k served, latencies := drop k aged,
            request_sources := drop k (request_sources ?s)\<rparr>,
       (emitted h)\<lparr>response_latency := response_latency (emitted h) @ take k aged,
            request_proxy := request_proxy (emitted h) @ take k (request_sources ?s),
            response_server := response_server (emitted h) @ replicate k (server_id ?s)\<rparr>)"
    by (simp add: tick_as_specified_def Let_def aged_def served_def k_def ts_def)
  let ?s' = "fst (tick_as_specified ?s (emitted h))"
  let ?g' = "snd (tick_as_specified ?s (emitted h))"
  let ?h' = "\<lparr>server = ?s', emitted = ?g', waiting = drop k w1,
              waited = waited h @ take k w1\<rparr>"
  from lens have run: "UpstreamServer_processRequest ?s (emitted h) =
      Inr (tick_as_specified ?s (emitted h))"
    by (simp add: processRequest_eq ts_def)
  from kn ls have popped: "length (service_timers ?s) - length (service_timers ?s') = k"
    by (simp add: tick ts_def)
  from run popped have ev: "run_event h Process = Inr ?h'"
    by (simp add: run_event_def Let_def w1_def case_prod_beta)
  have ok': "server_ok ?s'" using ok by (rule server_ok_tick)
  have front: "take k aged = map (\<lambda>w. st + int w) (take k w1)"
  proof (rule nth_equalityI)
    from kn la lw1 show "length (take k aged) = length (map (\<lambda>w. st + int w) (take k w1))"
      by simp
  next
    fix j assume "j < length (take k aged)"
    with kn la have j: "j < k" "j < length ts" by simp_all
    with rel1 [of j] zero [of j] lw1 show "take k aged ! j = map (\<lambda>w. st + int w) (take k w1) ! j"
      by simp
  qed
  have behind: "\<forall>i < length (drop k w1). drop k aged ! i = st - drop k served ! i + int (drop k w1 ! i)"
    using rel1 kn la ls lw1 by simp
  have "run_ok ?h'"
    unfolding run_ok_def
    using ok' behind front out kn la ls lw1
    by (simp add: tick st_def)
  with ev show ?thesis by blast
qed

lemma run_ok_event:
  assumes "run_ok h"
  shows "\<exists>h'. run_event h e = Inr h' \<and> run_ok h'"
proof (cases e)
  case (Receive source)
  with run_ok_receive [OF assms, of source] show ?thesis by blast
next
  case Process
  with run_ok_process [OF assms] show ?thesis by simp
qed

lemma run_ok_events:
  "run_ok h \<Longrightarrow> \<exists>h'. run_events h es = Inr h' \<and> run_ok h'"
proof (induction es arbitrary: h)
  case Nil
  then show ?case by simp
next
  case (Cons e es)
  from run_ok_event [OF Cons.prems, of e] obtain h1 where
    h1: "run_event h e = Inr h1" "run_ok h1" by blast
  from Cons.IH [OF h1(2)] h1(1) show ?case by simp
qed

text \<open>
  Claim C5. Run a new server through any sequence of \<^verbatim>\<open>onReceiveRequest\<close> and
  \<^verbatim>\<open>processRequest\<close> calls. The run never faults, and for every response emitted the
  latency recorded in \<^verbatim>\<open>response_latency\<close> is the service time \<open>100\<close> plus the number
  of ticks during which the request was queued at a position the serving loop did not
  reach (it aged, its timer stood still); it is \<open>100\<close> exactly when that number is \<open>0\<close>.
\<close>

theorem latency_is_service_plus_wait:
  "\<exists>h. run_events (new_run sid) es = Inr h \<and>
       length (response_latency (emitted h)) = length (waited h) \<and>
       response_latency (emitted h) = map (\<lambda>w. 100 + int w) (waited h) \<and>
       (\<forall>j < length (waited h).
          response_latency (emitted h) ! j = 100 + int (waited h ! j) \<and>
          (response_latency (emitted h) ! j = 100 \<longleftrightarrow> waited h ! j = 0))"
proof -
  from run_ok_events [OF run_ok_new, of sid es] obtain h where
    h: "run_events (new_run sid) es = Inr h" "run_ok h" by blast
  from h(2) have "response_latency (emitted h) = map (\<lambda>w. 100 + int w) (waited h)"
    by (simp add: run_ok_def server_ok_def)
  with h(1) show ?thesis by (intro exI [of _ h]) simp
qed

theorem latency_is_service_plus_wait_witness:
  "run_events (new_run 0) (map Receive [1, 2, 3, 4, 5, 6, 7] @ replicate 200 Process) =
     Inr \<lparr>server = UpstreamServer 0,
          emitted = \<lparr>response_latency = [100, 100, 100, 100, 100, 100, 200],
                     request_proxy = [1, 2, 3, 4, 5, 6, 7],
                     response_server = [0, 0, 0, 0, 0, 0, 0]\<rparr>,
          waiting = [], waited = [0, 0, 0, 0, 0, 0, 100]\<rparr> \<and>
   [100, 100, 100, 100, 100, 100, 200] = map (\<lambda>w. 100 + int w) [0, 0, 0, 0, 0, 0, 100]"
proof -
  have ev: "run_events (new_run 0) (map Receive [1, 2, 3, 4, 5, 6, 7] @ replicate 200 Process) =
     Inr \<lparr>server = UpstreamServer 0,
          emitted = \<lparr>response_latency = [100, 100, 100, 100, 100, 100, 200],
                     request_proxy = [1, 2, 3, 4, 5, 6, 7],
                     response_server = [0, 0, 0, 0, 0, 0, 0]\<rparr>,
          waiting = [], waited = [0, 0, 0, 0, 0, 0, 100]\<rparr>"
    by code_simp
  from latency_is_service_plus_wait
    [of 0 "map Receive [1, 2, 3, 4, 5, 6, 7] @ replicate 200 Process"] ev
  show ?thesis by auto
qed

section \<open>Queues and counters of the whole simulation\<close>

lemma drain_front_counts:
  "drain_front s g = Inr (s', g') \<Longrightarrow>
     length (service_timers s') + length (request_proxy g') =
       length (service_timers s) + length (request_proxy g) \<and>
     length (response_server g') + length (request_proxy g) =
       length (response_server g) + length (request_proxy g')"
proof (induction s g rule: drain_front.induct)
  case (1 s g)
  show ?case
  proof (cases "service_timers s")
    case Nil
    with "1.prems" show ?thesis by (subst (asm) drain_front.simps) simp
  next
    case (Cons t ts)
    note ts = Cons
    show ?thesis
    proof (cases "t = 0")
      case False
      with ts "1.prems" show ?thesis by (subst (asm) drain_front.simps) simp
    next
      case True
      from ts True "1.prems" obtain l ls where ls: "latencies s = l # ls"
        by (subst (asm) drain_front.simps) (cases "latencies s"; simp)
      from ts True ls "1.prems" obtain q qs where qs: "request_sources s = q # qs"
        by (subst (asm) drain_front.simps) (cases "request_sources s"; simp)
      let ?s = "s\<lparr>service_timers := ts, latencies := ls, request_sources := qs\<rparr>"
      let ?g = "g\<lparr>response_latency := response_latency g @ [l],
               request_proxy := request_proxy g @ [q],
               response_server := response_server g @ [server_id s]\<rparr>"
      have "drain_front s g = drain_front ?s ?g"
        using ts True ls qs by (subst drain_front.simps) simp
      with "1.prems" have "drain_front ?s ?g = Inr (s', g')" by simp
      from "1.IH" [OF ts True ls qs this] ts show ?thesis by simp
    qed
  qed
qed

lemma processRequest_counts:
  assumes "UpstreamServer_processRequest s g = Inr (s', g')"
  shows "length (service_timers s') + length (request_proxy g') =
       length (service_timers s) + length (request_proxy g)"
    and "length (response_server g') + length (request_proxy g) =
       length (response_server g) + length (request_proxy g')"
  using drain_front_counts [OF assms [unfolded UpstreamServer_processRequest_def]]
  by (simp_all add: serve_window_length)

lemma process_each_counts:
  "process_each ss g = Inr (ss', g') \<Longrightarrow>
     sum_list (map UpstreamServer_activeRequests ss') + int (length (request_proxy g')) =
       sum_list (map UpstreamServer_activeRequests ss) + int (length (request_proxy g)) \<and>
     length (response_server g') + length (request_proxy g) =
       length (response_server g) + length (request_proxy g')"
proof (induction ss arbitrary: g ss' g')
  case Nil
  then show ?case by simp
next
  case (Cons s ss)
  from Cons.prems obtain s1 g1 where
    first: "UpstreamServer_processRequest s g = Inr (s1, g1)"
    by (auto split: sum.splits)
  with Cons.prems obtain ss1 where
    rest: "process_each ss g1 = Inr (ss1, g')" and ss': "ss' = s1 # ss1"
    by (auto split: sum.splits)
  from processRequest_counts [OF first] Cons.IH [OF rest] ss' show ?case
    by (simp add: UpstreamServer_activeRequests_def)
qed

lemma Backend_processRequest_counts:
  assumes "Backend_processRequest b g = Inr (b', g')"
  shows "queued b' + int (length (request_proxy g')) = queued b + int (length (request_proxy g))"
    and "length (response_server g') + length (request_proxy g) =
       length (response_server g) + length (request_proxy g')"
proof -
  from assms obtain ss where
    "process_each (upstream_servers b) g = Inr (ss, g')" "b' = b\<lparr>upstream_servers := ss\<rparr>"
    by (auto simp: Backend_processRequest_def split: sum.splits)
  with process_each_counts [of "upstream_servers b" g ss g']
  show "queued b' + int (length (request_proxy g')) = queued b + int (length (request_proxy g))"
    and "length (response_server g') + length (request_proxy g) =
       length (response_server g) + length (request_proxy g')"
    by (simp_all add: queued_def Backend_activeRequests_def)
qed

lemma sum_list_update_int:
  "i < length xs \<Longrightarrow> sum_list (xs[i := v]) = sum_list xs - xs ! i + (v :: int)"
proof (induction xs arbitrary: i)
  case Nil
  then show ?case by simp
next
  case (Cons x xs)
  then show ?case by (cases i) simp_all
qed

lemma sum_list_map_update:
  "i < length xs \<Longrightarrow>
   sum_list (map f (xs[i := y])) = sum_list (map f xs) - f (xs ! i) + (f y :: int)"
  by (simp add: map_update sum_list_update_int)

lemma onReceiveResponse_outstanding:
  assumes "ProxyServer_onReceiveResponse p v = Inr p'"
  shows "outstanding p' = outstanding p - 1"
  using assms
  by (auto simp: ProxyServer_onReceiveResponse_def LoadBalancer_onReceiveResponse_def
      at_index_def outstanding_def sum_list_update_int split: option.splits sum.splits if_splits)

lemma deliver_outstanding:
  "deliver qs vs ps = Inr ps' \<Longrightarrow>
     sum_list (map outstanding ps') = sum_list (map outstanding ps) - int (length qs)"
proof (induction qs vs ps rule: deliver.induct)
  case (1 servers ps)
  then show ?case by simp
next
  case (2 q qs ps)
  then show ?case by simp
next
  case (3 q qs v vs ps)
  from "3.prems" obtain p where p: "at_index ps q = Inr p"
    by (auto split: sum.splits)
  with "3.prems" obtain p' where p': "ProxyServer_onReceiveResponse p v = Inr p'"
    by (auto split: sum.splits)
  from p p' "3.prems" have rest: "deliver qs vs (ps[nat q := p']) = Inr ps'" by simp
  from p have q: "nat q < length ps" "p = ps ! nat q"
    by (auto simp: at_index_def split: if_splits)
  from "3.IH" [OF p p' rest] q onReceiveResponse_outstanding [OF p'] show ?case
    by (simp add: sum_list_map_update)
qed


lemma select_keeps_counters:
  assumes "selectUpstreamServer lb n r = Inr (i, lb', r')"
  shows "active_requests lb' = active_requests lb"
  using assms
  by (cases "variant lb")
    (auto simp: selectUpstreamServer_def Let_def split: if_splits option.splits sum.splits)

lemma onSendRequest_counters:
  assumes "LoadBalancer_onSendRequest lb i = Inr lb'"
  shows "sum_list (active_requests lb') = sum_list (active_requests lb) + 1"
  using assms
  by (auto simp: LoadBalancer_onSendRequest_def at_index_def sum_list_update_int
      split: sum.splits if_splits)

lemma Backend_onReceiveRequest_queued:
  assumes "Backend_onReceiveRequest b i pid = Inr b'"
  shows "queued b' = queued b + 1"
proof -
  from assms have i: "nat i < length (upstream_servers b)"
    and b': "b' = b\<lparr>upstream_servers := (upstream_servers b)
        [nat i := UpstreamServer_onReceiveRequest (upstream_servers b ! nat i) pid]\<rparr>"
    by (auto simp: Backend_onReceiveRequest_def at_index_def split: if_splits)
  have "UpstreamServer_activeRequests (UpstreamServer_onReceiveRequest s pid) =
      UpstreamServer_activeRequests s + 1" for s
    by (simp add: UpstreamServer_activeRequests_def UpstreamServer_onReceiveRequest_def)
  with i b' show ?thesis
    by (simp add: queued_def Backend_activeRequests_def sum_list_map_update)
qed

lemma ProxyServer_onSendRequest_counts:
  assumes "ProxyServer_onSendRequest p b r = Inr (p', b', r')"
  shows "outstanding p' = outstanding p + 1" and "queued b' = queued b + 1"
proof -
  from assms obtain lb where lb: "load_balancer p = Some lb"
    by (auto simp: ProxyServer_onSendRequest_def split: option.splits)
  with assms obtain i lb1 where sel: "selectUpstreamServer lb (num_servers b) r = Inr (i, lb1, r')"
    by (auto simp: ProxyServer_onSendRequest_def split: sum.splits)
  with assms lb obtain lb2 where snd: "LoadBalancer_onSendRequest lb1 i = Inr lb2"
    by (auto simp: ProxyServer_onSendRequest_def split: sum.splits)
  with assms lb sel have rcv: "Backend_onReceiveRequest b i (proxy_id p) = Inr b'"
    and p': "p' = p\<lparr>load_balancer := Some lb2\<rparr>"
    by (auto simp: ProxyServer_onSendRequest_def split: sum.splits)
  from select_keeps_counters [OF sel] onSendRequest_counters [OF snd] lb p'
  show "outstanding p' = outstanding p + 1"
    by (simp add: outstanding_def)
  from rcv show "queued b' = queued b + 1"
    by (rule Backend_onReceiveRequest_queued)
qed

lemma arrival_counts:
  assumes "arrival n p b r = Inr (p', b', r')"
  shows "0 < n" and "r 0 mod n < n"
    and "outstanding p' = outstanding p + (if r 0 mod n = 0 then 1 else 0)"
    and "queued b' = queued b + (if r 0 mod n = 0 then 1 else 0)"
proof -
  from assms show n: "0 < n" by (auto simp: arrival_def split: if_splits)
  then show "r 0 mod n < n" by simp
  show "outstanding p' = outstanding p + (if r 0 mod n = 0 then 1 else 0)"
    and "queued b' = queued b + (if r 0 mod n = 0 then 1 else 0)"
    using assms n ProxyServer_onSendRequest_counts [of p b "rand_rest r" p' b' r']
    by (auto simp: arrival_def split: if_splits)
qed



lemma arrivals_total:
  assumes "arrivals n ps b r = Inr (ps', b', r')"
  shows "queued b' - queued b = sum_list (map outstanding ps') - sum_list (map outstanding ps)"
  using assms
proof (induction ps arbitrary: b r ps' b' r')
  case Nil
  then show ?case by simp
next
  case (Cons p ps)
  from Cons.prems obtain p1 b1 r1 where first: "arrival n p b r = Inr (p1, b1, r1)"
    by (auto split: sum.splits)
  with Cons.prems obtain ps1 where rest: "arrivals n ps b1 r1 = Inr (ps1, b', r')"
    and ps': "ps' = p1 # ps1"
    by (auto split: sum.splits)
  from arrival_counts(3,4) [OF first] Cons.IH [OF rest] ps' show ?case
    by simp
qed

lemma collectStats_counts:
  assumes "collectStats sim g = Inr sim'"
  shows "backend sim' = backend sim"
    and "outstanding_all (frontend sim') =
       outstanding_all (frontend sim) - int (length (request_proxy g))"
proof -
  from assms obtain ps where
    del: "deliver (request_proxy g) (response_server g) (proxies (frontend sim)) = Inr ps"
    by (auto simp: collectStats_def split: sum.splits)
  with assms have fr: "frontend sim' = (frontend sim)\<lparr>proxies := ps\<rparr>"
    and "backend sim' = backend sim"
    by (auto simp: collectStats_def split: sum.splits)
  then show "backend sim' = backend sim" by simp
  from deliver_outstanding [OF del] fr
  show "outstanding_all (frontend sim') =
       outstanding_all (frontend sim) - int (length (request_proxy g))"
    by (simp add: outstanding_all_def)
qed

lemma processed_then_delivered:
  assumes "balanced w"
    and "Backend_processRequest (backend (simulator w)) (responses w) = Inr (b, g)"
    and "collectStats ((simulator w)\<lparr>backend := b\<rparr>) g = Inr sim"
  shows "queued (backend sim) = outstanding_all (frontend sim)"
proof -
  from assms(1) have eq: "queued (backend (simulator w)) = outstanding_all (frontend (simulator w))"
    and empty: "request_proxy (responses w) = []"
    by (simp_all add: balanced_def no_responses_def)
  from Backend_processRequest_counts(1) [OF assms(2)] empty
  have "queued b + int (length (request_proxy g)) = queued (backend (simulator w))" by simp
  with collectStats_counts [OF assms(3)] eq show ?thesis by simp
qed

lemma run1TimeUnit_balanced:
  assumes "balanced w" and "run1TimeUnit w = Inr w'"
  shows "balanced w'"
proof -
  from assms(2) obtain b g where
    proc: "Backend_processRequest (backend (simulator w)) (responses w) = Inr (b, g)"
    by (auto simp: run1TimeUnit_def split: sum.splits)
  with assms(2) obtain sim where
    stats: "collectStats ((simulator w)\<lparr>backend := b\<rparr>) g = Inr sim"
    by (auto simp: run1TimeUnit_def split: sum.splits)
  with assms(2) proc obtain fr b' r' where
    arr: "Frontend_onReceiveRequest (frontend sim) (backend sim) (random w) = Inr (fr, b', r')"
    and w': "w' = \<lparr>simulator = sim\<lparr>frontend := fr, backend := b'\<rparr>,
                   responses = cleanup g, random = r'\<rparr>"
    by (auto simp: run1TimeUnit_def split: sum.splits)
  from arr obtain ps where
    loop: "arrivals (length (proxies (frontend sim))) (proxies (frontend sim)) (backend sim)
        (random w) = Inr (ps, b', r')"
    and fr: "fr = (frontend sim)\<lparr>proxies := ps\<rparr>"
    by (auto simp: Frontend_onReceiveRequest_def split: sum.splits)
  from processed_then_delivered [OF assms(1) proc stats]
  have mid: "queued (backend sim) = outstanding_all (frontend sim)" .
  from arrivals_total [OF loop] mid fr have "queued b' = outstanding_all fr"
    by (simp add: outstanding_all_def)
  with w' show ?thesis
    by (simp add: balanced_def cleanup_def no_responses_def)
qed

lemma run_balanced: "balanced w \<Longrightarrow> run k w = Inr w' \<Longrightarrow> balanced w'"
proof (induction k arbitrary: w)
  case 0
  then show ?case by simp
next
  case (Suc k)
  from Suc.prems(2) obtain w1 where step: "run1TimeUnit w = Inr w1" and rest: "run k w1 = Inr w'"
    by (auto split: sum.splits)
  from run1TimeUnit_balanced [OF Suc.prems(1) step] rest show ?case
    by (rule Suc.IH)
qed

lemma outstanding_new: "outstanding (ProxyServer b lb_policy pid) = 0"
  by (simp add: outstanding_def ProxyServer_def LoadBalancer_def sum_list_replicate)

lemma start_balanced: "balanced (start proxy_servers backend_servers lb_policy g r)"
proof -
  have "sum_list (map (\<lambda>i. outstanding (ProxyServer b lb_policy (int i))) xs) = 0" for b xs
    by (induction xs) (simp_all add: outstanding_new)
  moreover have "sum_list (map (\<lambda>i. UpstreamServer_activeRequests (UpstreamServer (int i))) xs) = 0"
    for xs
    by (induction xs) (simp_all add: UpstreamServer_activeRequests_def UpstreamServer_def)
  ultimately show ?thesis
    by (simp add: balanced_def start_def LBSimulator_def queued_def outstanding_all_def
        Backend_activeRequests_def Backend_def Frontend_def cleanup_def no_responses_def comp_def)
qed

text \<open>
  Claim C8. In every state that the simulation reaches from its constructor by whole
  ticks, the queue lengths of all backend servers add up to the outstanding-request
  counters of all proxies. The same holds inside the next tick at the point where the
  responses have been delivered to their proxies and no request has arrived yet.
\<close>

theorem queues_match_counters:
  assumes "run k (start proxy_servers backend_servers lb_policy g r) = Inr w"
  shows "queued (backend (simulator w)) = outstanding_all (frontend (simulator w)) \<and>
     (\<forall>b g' sim.
        Backend_processRequest (backend (simulator w)) (responses w) = Inr (b, g') \<and>
        collectStats ((simulator w)\<lparr>backend := b\<rparr>) g' = Inr sim \<longrightarrow>
        queued (backend sim) = outstanding_all (frontend sim))"
proof -
  from run_balanced [OF start_balanced assms] have bal: "balanced w" .
  then have "queued (backend (simulator w)) = outstanding_all (frontend (simulator w))"
    by (simp add: balanced_def)
  moreover from bal have "queued (backend sim) = outstanding_all (frontend sim)"
    if "Backend_processRequest (backend (simulator w)) (responses w) = Inr (b, g')"
      "collectStats ((simulator w)\<lparr>backend := b\<rparr>) g' = Inr sim" for b g' sim
    using that by (rule processed_then_delivered)
  ultimately show ?thesis by blast
qed


theorem queues_match_counters_witness:
  "\<exists>w. run 110 (start 2 2 ''Least Request'' no_responses counting) = Inr w \<and>
       queued (backend (simulator w)) = 100 \<and>
       outstanding_all (frontend (simulator w)) = 100 \<and>
       request_cnt (simulator w) = 10"
proof -
  have "case run 110 (start 2 2 ''Least Request'' no_responses counting) of
          Inl f \<Rightarrow> False
        | Inr w \<Rightarrow> queued (backend (simulator w)) = 100 \<and>
                   request_cnt (simulator w) = 10"
    by code_simp
  then obtain w where
    run: "run 110 (start 2 2 ''Least Request'' no_responses counting) = Inr w"
    and vals: "queued (backend (simulator w)) = 100" "request_cnt (simulator w) = 10"
    by (auto split: sum.splits)
  from queues_match_counters [OF run] run vals show ?thesis by auto
qed

section \<open>The arrival phase\<close>



lemma select_total:
  assumes "policy_ok n lb" "0 < n"
  shows "(selectUpstreamServer lb (int n) r = Inl NeverReturns \<and> variant lb = LeastRequests) \<or>
     (\<exists>i lb' r'. selectUpstreamServer lb (int n) r = Inr (i, lb', r') \<and>
        0 \<le> i \<and> i < int n \<and> active_requests lb' = active_requests lb \<and> policy_ok n lb' \<and>
        (variant lb' = LeastRequests \<longleftrightarrow> variant lb = LeastRequests))"
proof (cases "variant lb")
  case (RoundRobin c)
  with assms have c: "0 \<le> c" by (simp add: policy_ok_def)
  from assms(2) have n: "0 < int n" by simp
  from select_RoundRobin [OF RoundRobin c n, of r] assms n RoundRobin show ?thesis
    by (simp add: policy_ok_def)
next
  case RandomSelect
  with assms show ?thesis
    by (simp add: selectUpstreamServer_def draw_mod policy_ok_def)
next
  case LeastRequests
  let ?a = "int (r 0) mod int n"
  from assms have len: "length (active_requests lb) = nat (int n)" and n: "0 < int n"
    by (simp_all add: policy_ok_def)
  show ?thesis
  proof (cases "second_choice ?a ?a (int n) (rand_rest r)")
    case None
    with LeastRequests n show ?thesis
      by (simp add: selectUpstreamServer_def draw_mod Let_def)
  next
    case (Some y)
    then obtain b r' where loop: "second_choice ?a ?a (int n) (rand_rest r) = Some (b, r')"
      by (cases y) simp
    from LeastRequests_select [OF LeastRequests n len loop] assms n LeastRequests
    show ?thesis by auto
  qed
qed

lemma send_total:
  assumes "proxy_ok n p" "length (upstream_servers b) = n" "0 < n"
  shows "(ProxyServer_onSendRequest p b r = Inl NeverReturns \<and> least_requests_proxy p) \<or>
     (\<exists>p' b' r'. ProxyServer_onSendRequest p b r = Inr (p', b', r') \<and> proxy_ok n p' \<and>
        length (upstream_servers b') = n \<and>
        (least_requests_proxy p' \<longleftrightarrow> least_requests_proxy p))"
proof -
  from assms(1) obtain lb where lb: "load_balancer p = Some lb" "policy_ok n lb"
    by (auto simp: proxy_ok_def split: option.splits)
  from assms(2) have ns: "num_servers b = int n" by (simp add: num_servers_def)
  from select_total [OF lb(2) assms(3), of r] show ?thesis
  proof (elim disjE conjE exE)
    assume "selectUpstreamServer lb (int n) r = Inl NeverReturns" "variant lb = LeastRequests"
    with lb ns show ?thesis
      by (simp add: ProxyServer_onSendRequest_def least_requests_proxy_def)
  next
    fix i lb' r'
    assume sel: "selectUpstreamServer lb (int n) r = Inr (i, lb', r')"
      and i: "0 \<le> i" "i < int n"
      and ar: "active_requests lb' = active_requests lb"
      and ok: "policy_ok n lb'"
      and lr: "variant lb' = LeastRequests \<longleftrightarrow> variant lb = LeastRequests"
    let ?lb = "lb'\<lparr>active_requests := (active_requests lb')[nat i := active_requests lb' ! nat i + 1]\<rparr>"
    let ?b = "b\<lparr>upstream_servers := (upstream_servers b)
        [nat i := UpstreamServer_onReceiveRequest (upstream_servers b ! nat i) (proxy_id p)]\<rparr>"
    from ok i have snd: "LoadBalancer_onSendRequest lb' i = Inr ?lb"
      by (simp add: LoadBalancer_onSendRequest_def at_index_def policy_ok_def)
    from assms(2) i have rcv: "Backend_onReceiveRequest b i (proxy_id p) = Inr ?b"
      by (simp add: Backend_onReceiveRequest_def at_index_def)
    from lb sel snd rcv ns have run:
      "ProxyServer_onSendRequest p b r = Inr (p\<lparr>load_balancer := Some ?lb\<rparr>, ?b, r')"
      by (simp add: ProxyServer_onSendRequest_def)
    from ok have "proxy_ok n (p\<lparr>load_balancer := Some ?lb\<rparr>)"
      by (simp add: proxy_ok_def policy_ok_def)
    moreover from assms(2) have "length (upstream_servers ?b) = n" by simp
    moreover from lb lr have "least_requests_proxy (p\<lparr>load_balancer := Some ?lb\<rparr>) \<longleftrightarrow>
        least_requests_proxy p"
      by (simp add: least_requests_proxy_def)
    ultimately show ?thesis using run by blast
  qed
qed

lemma arrival_total:
  assumes "proxy_ok n p" "length (upstream_servers b) = n" "0 < n" "0 < m"
  shows "(arrival m p b r = Inl NeverReturns \<and> least_requests_proxy p) \<or>
     (\<exists>p' b' r'. arrival m p b r = Inr (p', b', r') \<and> proxy_ok n p' \<and>
        length (upstream_servers b') = n)"
proof (cases "r 0 mod m = 0")
  case True
  with assms(4) have "arrival m p b r = ProxyServer_onSendRequest p b (rand_rest r)"
    by (simp add: arrival_def)
  with send_total [OF assms(1-3), of "rand_rest r"] show ?thesis by auto
next
  case False
  with assms show ?thesis by (simp add: arrival_def)
qed

lemma arrivals_total_run:
  assumes "0 < n" "0 < m"
  shows "list_all (proxy_ok n) ps \<Longrightarrow> length (upstream_servers b) = n \<Longrightarrow>
     (arrivals m ps b r = Inl NeverReturns \<and> (\<exists>p \<in> set ps. least_requests_proxy p)) \<or>
     (\<exists>ps' b' r'. arrivals m ps b r = Inr (ps', b', r') \<and> list_all (proxy_ok n) ps' \<and>
        length (upstream_servers b') = n)"
proof (induction ps arbitrary: b r)
  case Nil
  then show ?case by simp
next
  case (Cons p ps)
  from Cons.prems have p: "proxy_ok n p" and ps: "list_all (proxy_ok n) ps" by simp_all
  from arrival_total [OF p Cons.prems(2) assms, of r] show ?case
  proof (elim disjE conjE exE)
    assume "arrival m p b r = Inl NeverReturns" "least_requests_proxy p"
    then show ?thesis by simp
  next
    fix p1 b1 r1
    assume first: "arrival m p b r = Inr (p1, b1, r1)" and p1: "proxy_ok n p1"
      and b1: "length (upstream_servers b1) = n"
    from Cons.IH [OF ps b1, of r1] show ?thesis
    proof (elim disjE conjE exE bexE)
      fix q assume "arrivals m ps b1 r1 = Inl NeverReturns" "q \<in> set ps" "least_requests_proxy q"
      with first show ?thesis by auto
    next
      fix ps1 b' r'
      assume "arrivals m ps b1 r1 = Inr (ps1, b', r')" "list_all (proxy_ok n) ps1"
        "length (upstream_servers b') = n"
      with first p1 show ?thesis by simp
    qed
  qed
qed


lemma Frontend_onReceiveRequest_total:
  assumes "connected f b"
  shows "(Frontend_onReceiveRequest f b r = Inl NeverReturns \<and>
        (\<exists>p \<in> set (proxies f). least_requests_proxy p)) \<or>
     (\<exists>f' b' r'. Frontend_onReceiveRequest f b r = Inr (f', b', r') \<and> connected f' b' \<and>
        arrivals (length (proxies f)) (proxies f) b r = Inr (proxies f', b', r'))"
proof (cases "proxies f")
  case Nil
  with assms show ?thesis
    by (simp add: Frontend_onReceiveRequest_def connected_def)
next
  case (Cons p ps)
  then have m: "0 < length (proxies f)" by simp
  from assms have n: "0 < length (upstream_servers b)"
    and ok: "list_all (proxy_ok (length (upstream_servers b))) (proxies f)"
    by (simp_all add: connected_def)
  from arrivals_total_run [OF n m ok refl, of r] show ?thesis
  proof (elim disjE conjE exE)
    assume "arrivals (length (proxies f)) (proxies f) b r = Inl NeverReturns"
      "\<exists>p \<in> set (proxies f). least_requests_proxy p"
    then show ?thesis by (simp add: Frontend_onReceiveRequest_def)
  next
    fix ps' b' r'
    assume loop: "arrivals (length (proxies f)) (proxies f) b r = Inr (ps', b', r')"
      and ok': "list_all (proxy_ok (length (upstream_servers b))) ps'"
      and len: "length (upstream_servers b') = length (upstream_servers b)"
    from n len have "0 < length (upstream_servers b')" by (simp only:)
    with ok' len have "connected (f\<lparr>proxies := ps'\<rparr>) b'"
      by (simp add: connected_def)
    with loop show ?thesis
      by (simp add: Frontend_onReceiveRequest_def)
  qed
qed

lemma process_each_length: "process_each ss g = Inr (ss', g') \<Longrightarrow> length ss' = length ss"
proof (induction ss arbitrary: g ss' g')
  case Nil
  then show ?case by simp
next
  case (Cons s ss)
  then show ?case by (auto split: sum.splits)
qed

lemma onReceiveResponse_ok:
  assumes "ProxyServer_onReceiveResponse p v = Inr p'" "proxy_ok n p"
  shows "proxy_ok n p'"
  using assms
  by (auto simp: ProxyServer_onReceiveResponse_def LoadBalancer_onReceiveResponse_def
      proxy_ok_def policy_ok_def split: option.splits sum.splits)

lemma deliver_ok:
  "deliver qs vs ps = Inr ps' \<Longrightarrow> list_all (proxy_ok n) ps \<Longrightarrow> list_all (proxy_ok n) ps'"
proof (induction qs vs ps rule: deliver.induct)
  case (1 servers ps)
  then show ?case by simp
next
  case (2 q qs ps)
  then show ?case by simp
next
  case (3 q qs v vs ps)
  from "3.prems"(1) obtain p where p: "at_index ps q = Inr p"
    by (auto split: sum.splits)
  with "3.prems"(1) obtain p' where p': "ProxyServer_onReceiveResponse p v = Inr p'"
    by (auto split: sum.splits)
  from p p' "3.prems"(1) have rest: "deliver qs vs (ps[nat q := p']) = Inr ps'" by simp
  from p have q: "nat q < length ps" "p = ps ! nat q"
    by (auto simp: at_index_def split: if_splits)
  with "3.prems"(2) have "proxy_ok n p" by (simp add: list_all_length)
  with p' have "proxy_ok n p'" by (rule onReceiveResponse_ok)
  with "3.prems"(2) q(1) have "list_all (proxy_ok n) (ps[nat q := p'])"
    by (auto simp: list_all_length nth_list_update)
  with "3.IH" [OF p p' rest] show ?case .
qed

lemma start_connected:
  assumes "lb_policy \<in> {''Round Robin'', ''Random Select'', ''Least Request''}"
    and "1 \<le> backend_servers"
  shows "connected (frontend (simulator (start proxy_servers backend_servers lb_policy g r)))
     (backend (simulator (start proxy_servers backend_servers lb_policy g r)))"
proof -
  have "proxy_ok (nat backend_servers) (ProxyServer (Backend backend_servers) lb_policy pid)" for pid
    using assms
    by (auto simp: proxy_ok_def policy_ok_def ProxyServer_def LoadBalancer_def num_servers_def
        Backend_def)
  with assms(2) show ?thesis
    by (simp add: connected_def start_def LBSimulator_def Frontend_def Backend_def
        list_all_iff)
qed

lemma run1TimeUnit_connected:
  assumes "run1TimeUnit w = Inr w'"
    and "connected (frontend (simulator w)) (backend (simulator w))"
  shows "connected (frontend (simulator w')) (backend (simulator w'))"
proof -
  from assms(1) obtain b g where
    proc: "Backend_processRequest (backend (simulator w)) (responses w) = Inr (b, g)"
    by (auto simp: run1TimeUnit_def split: sum.splits)
  with assms(1) obtain sim where
    stats: "collectStats ((simulator w)\<lparr>backend := b\<rparr>) g = Inr sim"
    by (auto simp: run1TimeUnit_def split: sum.splits)
  with assms(1) proc obtain fr b' r' where
    arr: "Frontend_onReceiveRequest (frontend sim) (backend sim) (random w) = Inr (fr, b', r')"
    and w': "w' = \<lparr>simulator = sim\<lparr>frontend := fr, backend := b'\<rparr>,
                   responses = cleanup g, random = r'\<rparr>"
    by (auto simp: run1TimeUnit_def split: sum.splits)
  from proc have len: "length (upstream_servers b) = length (upstream_servers (backend (simulator w)))"
    by (auto simp: Backend_processRequest_def process_each_length split: sum.splits)
  from stats obtain ps where
    del: "deliver (request_proxy g) (response_server g) (proxies (frontend (simulator w))) = Inr ps"
    and sim: "frontend sim = (frontend (simulator w))\<lparr>proxies := ps\<rparr>" "backend sim = b"
    by (auto simp: collectStats_def split: sum.splits)
  from assms(2) deliver_ok [OF del] len sim have mid: "connected (frontend sim) (backend sim)"
    by (simp add: connected_def)
  from Frontend_onReceiveRequest_total [OF mid, of "random w"] arr w' show ?thesis
    by auto
qed

text \<open>
  The states that the simulation reaches with one of the three policy names and at least
  one server are connected ones, at the start of every arrival phase as well.
\<close>

lemma run_connected:
  "run k w = Inr w' \<Longrightarrow> connected (frontend (simulator w)) (backend (simulator w)) \<Longrightarrow>
   connected (frontend (simulator w')) (backend (simulator w'))"
proof (induction k arbitrary: w)
  case 0
  then show ?case by simp
next
  case (Suc k)
  from Suc.prems(1) obtain w1 where step: "run1TimeUnit w = Inr w1" and rest: "run k w1 = Inr w'"
    by (auto split: sum.splits)
  from Suc.IH [OF rest run1TimeUnit_connected [OF step Suc.prems(2)]] show ?case .
qed

lemma reached_connected:
  assumes "run k (start proxy_servers backend_servers lb_policy g r) = Inr w"
    and "lb_policy \<in> {''Round Robin'', ''Random Select'', ''Least Request''}"
    and "1 \<le> backend_servers"
  shows "connected (frontend (simulator w)) (backend (simulator w))"
  using run_connected [OF assms(1) start_connected [OF assms(2,3)]] .




end
